theory Spec2Isabelle
  imports Main "HOL-Library.Monad_Syntax" "HOL-Library.Multiset"
begin

section \<open>Sorted-merge set operations (search\_engine.cpp)\<close>

text \<open>
  \<^verbatim>\<open>SearchEngine::intersect\<close>, \<^verbatim>\<open>union_lists\<close> and \<^verbatim>\<open>difference\<close> walk two
  \<^verbatim>\<open>DynamicArray<int>\<close> with the indices \<open>i\<close> and \<open>j\<close> and push onto \<open>result\<close>.
  The elements are only compared, never added, so the C \<^verbatim>\<open>int\<close> is modelled by \<open>int\<close>.
  Every read \<open>list1[i]\<close>, \<open>list2[j]\<close> of the source is guarded by the loop
  condition, and the model reads at the same guarded places.
\<close>

function intersect_loop :: "int list \<Rightarrow> int list \<Rightarrow> nat \<Rightarrow> nat \<Rightarrow> int list \<Rightarrow> int list" where
  "intersect_loop list1 list2 i j result =
     (if i < length list1 \<and> j < length list2 then
        (if list1 ! i = list2 ! j then
           intersect_loop list1 list2 (i + 1) (j + 1) (result @ [list1 ! i])
         else if list1 ! i < list2 ! j then
           intersect_loop list1 list2 (i + 1) j result
         else
           intersect_loop list1 list2 i (j + 1) result)
      else result)"
  by pat_completeness auto
termination
  by (relation "measure (\<lambda>(list1, list2, i, j, result). (length list1 - i) + (length list2 - j))") auto

declare intersect_loop.simps [simp del]

definition intersect :: "int list \<Rightarrow> int list \<Rightarrow> int list" where
  "intersect list1 list2 = intersect_loop list1 list2 0 0 []"

function union_loop :: "int list \<Rightarrow> int list \<Rightarrow> nat \<Rightarrow> nat \<Rightarrow> int list \<Rightarrow> int list" where
  "union_loop list1 list2 i j result =
     (if i < length list1 \<or> j < length list2 then
        (if i < length list1 \<and> (j \<ge> length list2 \<or> list1 ! i < list2 ! j) then
           union_loop list1 list2 (i + 1) j (result @ [list1 ! i])
         else if j < length list2 \<and> (i \<ge> length list1 \<or> list2 ! j < list1 ! i) then
           union_loop list1 list2 i (j + 1) (result @ [list2 ! j])
         else
           union_loop list1 list2 (i + 1) (j + 1) (result @ [list1 ! i]))
      else result)"
  by pat_completeness auto
termination
  by (relation "measure (\<lambda>(list1, list2, i, j, result). (length list1 - i) + (length list2 - j))") auto

declare union_loop.simps [simp del]

definition union_lists :: "int list \<Rightarrow> int list \<Rightarrow> int list" where
  "union_lists list1 list2 = union_loop list1 list2 0 0 []"

function difference_loop :: "int list \<Rightarrow> int list \<Rightarrow> nat \<Rightarrow> nat \<Rightarrow> int list \<Rightarrow> int list" where
  "difference_loop list1 list2 i j result =
     (if i < length list1 then
        (if j \<ge> length list2 then
           difference_loop list1 list2 (i + 1) j (result @ [list1 ! i])
         else if list1 ! i = list2 ! j then
           difference_loop list1 list2 (i + 1) (j + 1) result
         else if list1 ! i < list2 ! j then
           difference_loop list1 list2 (i + 1) j (result @ [list1 ! i])
         else
           difference_loop list1 list2 i (j + 1) result)
      else result)"
  by pat_completeness auto
termination
  by (relation "measure (\<lambda>(list1, list2, i, j, result). (length list1 - i) + (length list2 - j))") auto

declare difference_loop.simps [simp del]

definition difference :: "int list \<Rightarrow> int list \<Rightarrow> int list" where
  "difference list1 list2 = difference_loop list1 list2 0 0 []"

text \<open>
  The loops seen from the unread suffixes \<open>drop i list1\<close> and \<open>drop j list2\<close>: the same
  case analysis by recursion on the lists. These are proof devices; the theorems below
  are about \<open>intersect\<close>, \<open>union_lists\<close> and \<open>difference\<close>.
\<close>

fun isect_rest :: "int list \<Rightarrow> int list \<Rightarrow> int list" where
  "isect_rest (x # xs) (y # ys) =
     (if x = y then x # isect_rest xs ys
      else if x < y then isect_rest xs (y # ys)
      else isect_rest (x # xs) ys)"
| "isect_rest _ _ = []"

fun union_rest :: "int list \<Rightarrow> int list \<Rightarrow> int list" where
  "union_rest (x # xs) (y # ys) =
     (if x < y then x # union_rest xs (y # ys)
      else if y < x then y # union_rest (x # xs) ys
      else x # union_rest xs ys)"
| "union_rest xs [] = xs"
| "union_rest [] ys = ys"

fun diff_rest :: "int list \<Rightarrow> int list \<Rightarrow> int list" where
  "diff_rest (x # xs) (y # ys) =
     (if x = y then diff_rest xs ys
      else if x < y then x # diff_rest xs (y # ys)
      else diff_rest (x # xs) ys)"
| "diff_rest xs [] = xs"
| "diff_rest [] ys = []"

section \<open>Porter stemmer (stemmer.cpp)\<close>

text \<open>
  \<^verbatim>\<open>PorterStemmer\<close> keeps the buffer \<^verbatim>\<open>word_\<close> and the indices \<^verbatim>\<open>k_\<close> and \<^verbatim>\<open>j_\<close>
  (fields \<open>st_word\<close>, \<open>st_k\<close>, \<open>st_j\<close>). The indices are C \<^verbatim>\<open>int\<close>s that stay between
  \<open>-1\<close> and the length of the word, so they are modelled by \<open>int\<close>.

  \<^verbatim>\<open>word_[i]\<close> is \<^verbatim>\<open>std::string::operator[]\<close>: defined for \<open>0 \<le> i \<le> size()\<close> (the
  terminating zero at \<open>size()\<close>) and undefined behaviour elsewhere. \<open>char_at\<close> returns
  \<open>None\<close> for an undefined read, and every function of the stemmer returns \<open>None\<close> once
  such a read has happened. \<^verbatim>\<open>substr\<close> and \<^verbatim>\<open>replace\<close> throw for a position beyond the
  size, which is \<open>None\<close> as well.
\<close>

definition char_at :: "string \<Rightarrow> int \<Rightarrow> char option" where
  "char_at w i =
     (if 0 \<le> i \<and> i < int (length w) then Some (w ! nat i)
      else if i = int (length w) then Some (CHR 0x00)
      else None)"

definition substr :: "string \<Rightarrow> int \<Rightarrow> int \<Rightarrow> string option" where
  "substr w pos len =
     (if 0 \<le> pos \<and> pos \<le> int (length w) \<and> 0 \<le> len
      then Some (take (nat len) (drop (nat pos) w)) else None)"

definition replace :: "string \<Rightarrow> int \<Rightarrow> int \<Rightarrow> string \<Rightarrow> string option" where
  "replace w pos len s =
     (if 0 \<le> pos \<and> pos \<le> int (length w) \<and> 0 \<le> len
      then Some (take (nat pos) w @ s @ drop (nat pos + nat len) w) else None)"

record stemmer =
  st_word :: string
  st_k :: int
  st_j :: int

function is_consonant :: "string \<Rightarrow> int \<Rightarrow> bool option" where
  "is_consonant w i =
     (case char_at w i of
        None \<Rightarrow> None
      | Some ch \<Rightarrow>
          if ch = CHR ''a'' \<or> ch = CHR ''e'' \<or> ch = CHR ''i'' \<or> ch = CHR ''o'' \<or> ch = CHR ''u''
          then Some False
          else if ch = CHR ''y''
          then (if i = 0 then Some True
                else (case is_consonant w (i - 1) of None \<Rightarrow> None | Some c \<Rightarrow> Some (\<not> c)))
          else Some True)"
  by pat_completeness auto
termination
  by (relation "measure (\<lambda>(w, i). nat i)") (auto simp: char_at_def split: if_splits)

declare is_consonant.simps [simp del]

datatype measure_phase = Head | Vowels | Consonants

function measure_loop :: "string \<Rightarrow> int \<Rightarrow> measure_phase \<Rightarrow> int \<Rightarrow> int \<Rightarrow> int option" where
  "measure_loop w j ph i n =
     (if i > j then Some n
      else (case is_consonant w i of
              None \<Rightarrow> None
            | Some c \<Rightarrow>
                (case ph of
                   Head \<Rightarrow> if \<not> c then measure_loop w j Vowels (i + 1) n
                           else measure_loop w j Head (i + 1) n
                 | Vowels \<Rightarrow> if c then measure_loop w j Consonants (i + 1) (n + 1)
                             else measure_loop w j Vowels (i + 1) n
                 | Consonants \<Rightarrow> if \<not> c then measure_loop w j Vowels (i + 1) n
                                 else measure_loop w j Consonants (i + 1) n)))"
  by pat_completeness auto
termination
  by (relation "measure (\<lambda>(w, j, ph, i, n). nat (j + 1 - i))") auto

declare measure_loop.simps [simp del]

definition stem_measure :: "stemmer \<Rightarrow> int option" where
  "stem_measure s = measure_loop (st_word s) (st_j s) Head 0 0"

function vowel_loop :: "string \<Rightarrow> int \<Rightarrow> int \<Rightarrow> bool option" where
  "vowel_loop w j i =
     (if i \<le> j then
        (case is_consonant w i of
           None \<Rightarrow> None
         | Some c \<Rightarrow> if \<not> c then Some True else vowel_loop w j (i + 1))
      else Some False)"
  by pat_completeness auto
termination
  by (relation "measure (\<lambda>(w, j, i). nat (j + 1 - i))") auto

declare vowel_loop.simps [simp del]

definition vowel_in_stem :: "stemmer \<Rightarrow> bool option" where
  "vowel_in_stem s = vowel_loop (st_word s) (st_j s) 0"

definition double_consonant :: "stemmer \<Rightarrow> int \<Rightarrow> bool option" where
  "double_consonant s i =
     (if i < 1 then Some False
      else do {
        a \<leftarrow> char_at (st_word s) i;
        b \<leftarrow> char_at (st_word s) (i - 1);
        if a \<noteq> b then Some False else is_consonant (st_word s) i
      })"

definition cvc :: "stemmer \<Rightarrow> int \<Rightarrow> bool option" where
  "cvc s i =
     (if i < 2 then Some False
      else do {
        c0 \<leftarrow> is_consonant (st_word s) i;
        if \<not> c0 then Some False
        else do {
          c1 \<leftarrow> is_consonant (st_word s) (i - 1);
          if c1 then Some False
          else do {
            c2 \<leftarrow> is_consonant (st_word s) (i - 2);
            if \<not> c2 then Some False
            else do {
              ch \<leftarrow> char_at (st_word s) i;
              Some (\<not> (ch = CHR ''w'' \<or> ch = CHR ''x'' \<or> ch = CHR ''y''))
            }
          }
        }
      })"

definition ends :: "string \<Rightarrow> stemmer \<Rightarrow> (bool \<times> stemmer) option" where
  "ends suffix s =
     (let len = int (length suffix) in
      do {
        a \<leftarrow> char_at suffix (len - 1);
        b \<leftarrow> char_at (st_word s) (st_k s);
        if a \<noteq> b then Some (False, s)
        else if len > st_k s + 1 then Some (False, s)
        else do {
          t \<leftarrow> substr (st_word s) (st_k s - len + 1) len;
          if t \<noteq> suffix then Some (False, s)
          else Some (True, s\<lparr>st_j := st_k s - len\<rparr>)
        }
      })"

definition set_to :: "string \<Rightarrow> stemmer \<Rightarrow> stemmer option" where
  "set_to str s =
     do {
       w \<leftarrow> replace (st_word s) (st_j s + 1) (st_k s - st_j s) str;
       Some (s\<lparr>st_word := w, st_k := st_j s + int (length str)\<rparr>)
     }"

definition stem_r :: "string \<Rightarrow> stemmer \<Rightarrow> stemmer option" where
  "stem_r str s = do { m \<leftarrow> stem_measure s; if m > 0 then set_to str s else Some s }"

definition step1a :: "stemmer \<Rightarrow> stemmer option" where
  "step1a s =
     do {
       c \<leftarrow> char_at (st_word s) (st_k s);
       if c = CHR ''s'' then
         do {
           (b1, s1) \<leftarrow> ends ''sses'' s;
           if b1 then Some (s1\<lparr>st_k := st_k s1 - 2\<rparr>)
           else do {
             (b2, s2) \<leftarrow> ends ''ies'' s1;
             if b2 then set_to ''i'' s2
             else do {
               c' \<leftarrow> char_at (st_word s2) (st_k s2 - 1);
               if c' \<noteq> CHR ''s'' then Some (s2\<lparr>st_k := st_k s2 - 1\<rparr>) else Some s2
             }
           }
         }
       else Some s
     }"

definition step1b_tail :: "stemmer \<Rightarrow> stemmer option" where
  "step1b_tail s =
     do {
       (b1, s1) \<leftarrow> ends ''at'' s;
       if b1 then set_to ''ate'' s1
       else do {
         (b2, s2) \<leftarrow> ends ''bl'' s1;
         if b2 then set_to ''ble'' s2
         else do {
           (b3, s3) \<leftarrow> ends ''iz'' s2;
           if b3 then set_to ''ize'' s3
           else do {
             d \<leftarrow> double_consonant s3 (st_k s3);
             if d then
               do {
                 let s4 = s3\<lparr>st_k := st_k s3 - 1\<rparr>;
                 ch \<leftarrow> char_at (st_word s4) (st_k s4);
                 if ch = CHR ''l'' \<or> ch = CHR ''s'' \<or> ch = CHR ''z''
                 then Some (s4\<lparr>st_k := st_k s4 + 1\<rparr>) else Some s4
               }
             else do {
               m \<leftarrow> stem_measure s3;
               if m = 1 then
                 do { c \<leftarrow> cvc s3 (st_k s3); if c then set_to ''e'' s3 else Some s3 }
               else Some s3
             }
           }
         }
       }
     }"

definition step1b :: "stemmer \<Rightarrow> stemmer option" where
  "step1b s =
     do {
       (b1, s1) \<leftarrow> ends ''eed'' s;
       if b1 then
         do { m \<leftarrow> stem_measure s1; if m > 0 then Some (s1\<lparr>st_k := st_k s1 - 1\<rparr>) else Some s1 }
       else do {
         (b2, s2) \<leftarrow> ends ''ed'' s1;
         (b3, s3) \<leftarrow> (if b2 then Some (True, s2) else ends ''ing'' s2);
         if b3 then
           do { v \<leftarrow> vowel_in_stem s3; if v then step1b_tail (s3\<lparr>st_k := st_j s3\<rparr>) else Some s3 }
         else Some s3
       }
     }"

definition step1ab :: "stemmer \<Rightarrow> stemmer option" where
  "step1ab s = do { s1 \<leftarrow> step1a s; step1b s1 }"

definition step1c :: "stemmer \<Rightarrow> stemmer option" where
  "step1c s =
     do {
       (b, s1) \<leftarrow> ends ''y'' s;
       if b then
         do {
           v \<leftarrow> vowel_in_stem s1;
           if v then
             (if 0 \<le> st_k s1 \<and> st_k s1 < int (length (st_word s1))
              then Some (s1\<lparr>st_word := (st_word s1)[nat (st_k s1) := CHR ''i'']\<rparr>)
              else None)
           else Some s1
         }
       else Some s1
     }"

text \<open>\<^verbatim>\<open>if (ends(a)) { r(x); break; } if (ends(b)) { r(y); break; } ... break;\<close>\<close>

fun replace_first :: "(string \<times> string) list \<Rightarrow> stemmer \<Rightarrow> stemmer option" where
  "replace_first [] s = Some s"
| "replace_first ((suffix, str) # rules) s =
     do { (b, s1) \<leftarrow> ends suffix s; if b then stem_r str s1 else replace_first rules s1 }"

definition step2 :: "stemmer \<Rightarrow> stemmer option" where
  "step2 s =
     (if st_k s = 0 then Some s
      else do {
        c \<leftarrow> char_at (st_word s) (st_k s - 1);
        if c = CHR ''a'' then replace_first [(''ational'', ''ate''), (''tional'', ''tion'')] s
        else if c = CHR ''c'' then replace_first [(''enci'', ''ence''), (''anci'', ''ance'')] s
        else if c = CHR ''e'' then replace_first [(''izer'', ''ize'')] s
        else if c = CHR ''l'' then
          replace_first [(''bli'', ''ble''), (''alli'', ''al''), (''entli'', ''ent''),
                         (''eli'', ''e''), (''ousli'', ''ous'')] s
        else if c = CHR ''o'' then
          replace_first [(''ization'', ''ize''), (''ation'', ''ate''), (''ator'', ''ate'')] s
        else if c = CHR ''s'' then
          replace_first [(''alism'', ''al''), (''iveness'', ''ive''), (''fulness'', ''ful''),
                         (''ousness'', ''ous'')] s
        else if c = CHR ''t'' then
          replace_first [(''aliti'', ''al''), (''iviti'', ''ive''), (''biliti'', ''ble'')] s
        else if c = CHR ''g'' then replace_first [(''logi'', ''log'')] s
        else Some s
      })"

definition step3 :: "stemmer \<Rightarrow> stemmer option" where
  "step3 s =
     do {
       c \<leftarrow> char_at (st_word s) (st_k s);
       if c = CHR ''e'' then
         replace_first [(''icate'', ''ic''), (''ative'', []), (''alize'', ''al'')] s
       else if c = CHR ''i'' then replace_first [(''iciti'', ''ic'')] s
       else if c = CHR ''l'' then replace_first [(''ical'', ''ic''), (''ful'', [])] s
       else if c = CHR ''s'' then replace_first [(''ness'', [])] s
       else Some s
     }"

text \<open>\<^verbatim>\<open>if (ends(a)) break; if (ends(b)) break; return;\<close>: \<open>True\<close> stands for \<^verbatim>\<open>break\<close>.\<close>

fun ends_first :: "string list \<Rightarrow> stemmer \<Rightarrow> (bool \<times> stemmer) option" where
  "ends_first [] s = Some (False, s)"
| "ends_first (suffix # rest) s =
     do { (b, s1) \<leftarrow> ends suffix s; if b then Some (True, s1) else ends_first rest s1 }"

definition step4_o :: "stemmer \<Rightarrow> (bool \<times> stemmer) option" where
  "step4_o s =
     do {
       (b, s1) \<leftarrow> ends ''ion'' s;
       ok \<leftarrow> (if b \<and> st_j s1 \<ge> 0 then
                 do { c \<leftarrow> char_at (st_word s1) (st_j s1); Some (c = CHR ''s'' \<or> c = CHR ''t'') }
               else Some False);
       if ok then Some (True, s1) else ends_first [''ou''] s1
     }"

definition step4 :: "stemmer \<Rightarrow> stemmer option" where
  "step4 s =
     do {
       c \<leftarrow> char_at (st_word s) (st_k s - 1);
       (brk, s1) \<leftarrow>
         (if c = CHR ''a'' then ends_first [''al''] s
          else if c = CHR ''c'' then ends_first [''ance'', ''ence''] s
          else if c = CHR ''e'' then ends_first [''er''] s
          else if c = CHR ''i'' then ends_first [''ic''] s
          else if c = CHR ''l'' then ends_first [''able'', ''ible''] s
          else if c = CHR ''n'' then ends_first [''ant'', ''ement'', ''ment'', ''ent''] s
          else if c = CHR ''o'' then step4_o s
          else if c = CHR ''s'' then ends_first [''ism''] s
          else if c = CHR ''t'' then ends_first [''ate'', ''iti''] s
          else if c = CHR ''u'' then ends_first [''ous''] s
          else if c = CHR ''v'' then ends_first [''ive''] s
          else if c = CHR ''z'' then ends_first [''ize''] s
          else Some (False, s));
       if brk then
         do { m \<leftarrow> stem_measure s1; if m > 1 then Some (s1\<lparr>st_k := st_j s1\<rparr>) else Some s1 }
       else Some s1
     }"

definition step5 :: "stemmer \<Rightarrow> stemmer option" where
  "step5 s0 =
     do {
       let s = s0\<lparr>st_j := st_k s0\<rparr>;
       c \<leftarrow> char_at (st_word s) (st_k s);
       s1 \<leftarrow>
         (if c = CHR ''e'' then
            do {
              a \<leftarrow> stem_measure s;
              drop_e \<leftarrow> (if a > 1 then Some True
                         else if a = 1 then do { v \<leftarrow> cvc s (st_k s - 1); Some (\<not> v) }
                         else Some False);
              if drop_e then Some (s\<lparr>st_k := st_k s - 1\<rparr>) else Some s
            }
          else Some s);
       c1 \<leftarrow> char_at (st_word s1) (st_k s1);
       if c1 = CHR ''l'' then
         do {
           d \<leftarrow> double_consonant s1 (st_k s1);
           if d then
             do { m \<leftarrow> stem_measure s1; if m > 1 then Some (s1\<lparr>st_k := st_k s1 - 1\<rparr>) else Some s1 }
           else Some s1
         }
       else Some s1
     }"

definition stem :: "string \<Rightarrow> string option" where
  "stem w =
     (let s = \<lparr>st_word = w, st_k = int (length w) - 1, st_j = 0\<rparr> in
      if st_k s \<le> 1 then Some (st_word s)
      else do {
        s1 \<leftarrow> step1ab s;
        s2 \<leftarrow> step1c s1;
        s3 \<leftarrow> step2 s2;
        s4 \<leftarrow> step3 s3;
        s5 \<leftarrow> step4 s4;
        s6 \<leftarrow> step5 s5;
        substr (st_word s6) 0 (st_k s6 + 1)
      })"

section \<open>Characters (\<^verbatim>\<open><cctype>\<close> in the "C" locale)\<close>

definition is_upper :: "char \<Rightarrow> bool" where
  "is_upper c = (65 \<le> (of_char c :: nat) \<and> (of_char c :: nat) \<le> 90)"

definition is_lower :: "char \<Rightarrow> bool" where
  "is_lower c = (97 \<le> (of_char c :: nat) \<and> (of_char c :: nat) \<le> 122)"

definition is_digit :: "char \<Rightarrow> bool" where
  "is_digit c = (48 \<le> (of_char c :: nat) \<and> (of_char c :: nat) \<le> 57)"

definition is_alpha :: "char \<Rightarrow> bool" where
  "is_alpha c = (is_upper c \<or> is_lower c)"

definition is_alnum :: "char \<Rightarrow> bool" where
  "is_alnum c = (is_alpha c \<or> is_digit c)"

definition is_space :: "char \<Rightarrow> bool" where
  "is_space c = ((of_char c :: nat) = 32 \<or> (9 \<le> (of_char c :: nat) \<and> (of_char c :: nat) \<le> 13))"

definition to_lower_char :: "char \<Rightarrow> char" where
  "to_lower_char c = (if is_upper c then char_of ((of_char c :: nat) + 32) else c)"

section \<open>Tokenizer (tokenizer.cpp)\<close>

definition stop_words :: "string list" where
  "stop_words =
     [''a'', ''an'', ''and'', ''are'', ''as'', ''at'', ''be'', ''by'', ''for'', ''from'',
      ''has'', ''he'', ''in'', ''is'', ''it'', ''its'', ''of'', ''on'', ''that'', ''the'',
      ''to'', ''was'', ''were'', ''will'', ''with'', ''this'', ''but'', ''they'', ''have'',
      ''had'', ''what'', ''when'', ''where'', ''who'', ''which'', ''why'', ''how'', ''all'',
      ''each'', ''every'', ''both'', ''few'', ''more'', ''most'', ''other'', ''some'', ''such'',
      ''no'', ''nor'', ''not'', ''only'', ''own'', ''same'', ''so'', ''than'', ''too'', ''very'',
      ''can'', ''just'', ''should'', ''now'',
      ''you'', ''your'', ''we'', ''our'', ''us'', ''or'', ''if'', ''do'', ''did'', ''does'',
      ''about'', ''up'', ''out'', ''would'', ''could'', ''may'', ''might'', ''been'',
      ''also'', ''into'', ''over'', ''after'', ''before'', ''through'', ''between'',
      ''her'', ''him'', ''his'', ''she'', ''them'', ''their'', ''my'', ''me'',
      ''any'', ''there'', ''then'', ''these'', ''those'', ''am'', ''been'', ''being'',
      ''here'', ''while'', ''during'', ''under'', ''again'', ''once'']"

definition is_stop_word :: "string \<Rightarrow> bool" where
  "is_stop_word word = (word \<in> set stop_words)"

definition to_lower :: "string \<Rightarrow> string" where
  "to_lower str = map to_lower_char str"

text \<open>The body shared by the two places that close a token (lines 63-67 and 74-77).\<close>

definition push_token :: "string list \<Rightarrow> string \<Rightarrow> string list" where
  "push_token tokens current_token =
     (let lower_token = to_lower current_token in
      if length lower_token \<ge> 2 \<and> \<not> is_stop_word lower_token
      then tokens @ [lower_token] else tokens)"

fun tokenize_loop :: "string \<Rightarrow> string list \<Rightarrow> string \<Rightarrow> string list \<times> string" where
  "tokenize_loop [] tokens current_token = (tokens, current_token)"
| "tokenize_loop (c # text) tokens current_token =
     (if is_alpha c \<or> (c = CHR 0x27 \<and> current_token \<noteq> []) then
        tokenize_loop text tokens (current_token @ [c])
      else if current_token \<noteq> [] then
        tokenize_loop text (push_token tokens current_token) []
      else tokenize_loop text tokens current_token)"

definition tokenize :: "string \<Rightarrow> string list" where
  "tokenize text =
     (case tokenize_loop text [] [] of
        (tokens, current_token) \<Rightarrow>
          if current_token \<noteq> [] then push_token tokens current_token else tokens)"

section \<open>Containers (data\_structures.h)\<close>

text \<open>
  \<^verbatim>\<open>HashMap<K, V>\<close> is an open-addressing table. The engine and the builder use its
  \<^verbatim>\<open>insert\<close>, \<^verbatim>\<open>find\<close> and iterator, never \<^verbatim>\<open>remove\<close>. The model keeps the entries
  in a list with one entry per key: \<open>hm_insert\<close> overwrites the value of a key that is
  present and adds an entry otherwise, \<open>hm_find\<close> looks a key up. The order in which
  the source's iterator visits the slots depends on \<^verbatim>\<open>std::hash\<close>; the model visits the
  entries in the order of their first insertion, and the theorems below are stated through
  \<open>hm_find\<close>, so that they do not depend on that order.
\<close>

type_synonym ('k, 'v) hashmap = "('k \<times> 'v) list"

definition hm_find :: "('k, 'v) hashmap \<Rightarrow> 'k \<Rightarrow> 'v option" where
  "hm_find m key = map_of m key"

fun hm_insert :: "'k \<Rightarrow> 'v \<Rightarrow> ('k, 'v) hashmap \<Rightarrow> ('k, 'v) hashmap" where
  "hm_insert key val [] = [(key, val)]"
| "hm_insert key val ((k, v) # m) =
     (if k = key then (key, val) # m else (k, v) # hm_insert key val m)"

section \<open>Query engine (search\_engine.h, search\_engine.cpp)\<close>

datatype SearchPosting = SearchPosting (sp_doc_id: int) (sp_tf: int)

record SearchResult =
  res_doc_id :: int
  res_url :: string
  res_title :: string

record SearchEngine =
  inverted_index :: "(string, SearchPosting list) hashmap"
  doc_urls :: "string list"
  doc_titles :: "string list"
  doc_lengths :: "int list"

function all_ids_loop :: "string list \<Rightarrow> nat \<Rightarrow> int list \<Rightarrow> int list" where
  "all_ids_loop urls i docs =
     (if i < length urls then
        all_ids_loop urls (i + 1) (if urls ! i \<noteq> [] then docs @ [int i] else docs)
      else docs)"
  by pat_completeness auto
termination
  by (relation "measure (\<lambda>(urls, i, docs). length urls - i)") auto

declare all_ids_loop.simps [simp del]

definition all_document_ids :: "SearchEngine \<Rightarrow> int list" where
  "all_document_ids e = all_ids_loop (doc_urls e) 0 []"

definition posting_doc_ids :: "SearchEngine \<Rightarrow> string \<Rightarrow> int list" where
  "posting_doc_ids e stemmed_term =
     (case hm_find (inverted_index e) stemmed_term of
        None \<Rightarrow> []
      | Some posting_list \<Rightarrow> map sp_doc_id posting_list)"

definition is_operator_token :: "string \<Rightarrow> bool" where
  "is_operator_token token = (token = ''and'' \<or> token = ''or'' \<or> token = ''not'')"

definition operator_precedence :: "string \<Rightarrow> int" where
  "operator_precedence op =
     (if op = ''not'' then 3 else if op = ''and'' then 2 else if op = ''or'' then 1 else 0)"

definition is_left_associative :: "string \<Rightarrow> bool" where
  "is_left_associative op = (op \<noteq> ''not'')"

definition to_lower_ascii :: "string \<Rightarrow> string" where
  "to_lower_ascii text = map to_lower_char text"

definition keep_char :: "char \<Rightarrow> bool" where
  "keep_char c = (is_alnum c \<or> c = CHR 0x27)"

function trim_left :: "string \<Rightarrow> nat \<Rightarrow> nat" where
  "trim_left lowered left =
     (if left < length lowered \<and> \<not> keep_char (lowered ! left)
      then trim_left lowered (left + 1) else left)"
  by pat_completeness auto
termination
  by (relation "measure (\<lambda>(lowered, left). length lowered - left)") auto

declare trim_left.simps [simp del]

function trim_right :: "string \<Rightarrow> nat \<Rightarrow> nat \<Rightarrow> nat" where
  "trim_right lowered left right =
     (if right > left \<and> \<not> keep_char (lowered ! (right - 1))
      then trim_right lowered left (right - 1) else right)"
  by pat_completeness auto
termination
  by (relation "measure (\<lambda>(lowered, left, right). right)") auto

declare trim_right.simps [simp del]

definition normalize_query_token :: "string \<Rightarrow> string" where
  "normalize_query_token token =
     (if token = ''('' \<or> token = '')'' then token
      else
        let lowered = to_lower_ascii token in
        if lowered = [] then lowered
        else
          let left = trim_left lowered 0;
              right = trim_right lowered left (length lowered)
          in if right \<le> left then [] else take (right - left) (drop left lowered))"

subsection \<open>Shunting-yard conversion\<close>

text \<open>The stacks are \<^verbatim>\<open>DynamicArray\<close>s whose top is the last element.\<close>

function pop_to_paren :: "string list \<Rightarrow> string list \<Rightarrow> string list \<times> string list" where
  "pop_to_paren output op_stack =
     (if op_stack \<noteq> [] \<and> last op_stack \<noteq> ''('' then
        pop_to_paren (output @ [last op_stack]) (butlast op_stack)
      else (output, op_stack))"
  by pat_completeness auto
termination
  by (relation "measure (\<lambda>(output, op_stack). length op_stack)") auto

declare pop_to_paren.simps [simp del]

function pop_operators :: "string \<Rightarrow> string list \<Rightarrow> string list \<Rightarrow> string list \<times> string list" where
  "pop_operators tok output op_stack =
     (if op_stack \<noteq> [] \<and> is_operator_token (last op_stack) then
        let top = last op_stack;
            top_prec = operator_precedence top;
            cur_prec = operator_precedence tok;
            should_pop = (top_prec > cur_prec \<or> (top_prec = cur_prec \<and> is_left_associative tok))
        in if \<not> should_pop then (output, op_stack)
           else pop_operators tok (output @ [top]) (butlast op_stack)
      else (output, op_stack))"
  by pat_completeness auto
termination
  by (relation "measure (\<lambda>(tok, output, op_stack). length op_stack)") auto

declare pop_operators.simps [simp del]

function drain_stack :: "string list \<Rightarrow> string list \<Rightarrow> string list" where
  "drain_stack output op_stack =
     (if op_stack \<noteq> [] then
        drain_stack (if last op_stack \<noteq> ''('' then output @ [last op_stack] else output)
          (butlast op_stack)
      else output)"
  by pat_completeness auto
termination
  by (relation "measure (\<lambda>(output, op_stack). length op_stack)") auto

declare drain_stack.simps [simp del]

fun to_rpn_loop :: "string list \<Rightarrow> string list \<Rightarrow> string list \<Rightarrow> string list \<times> string list" where
  "to_rpn_loop [] output op_stack = (output, op_stack)"
| "to_rpn_loop (tok # tokens) output op_stack =
     (if tok = [] then to_rpn_loop tokens output op_stack
      else if tok = ''('' then to_rpn_loop tokens output (op_stack @ [tok])
      else if tok = '')'' then
        (case pop_to_paren output op_stack of
           (output1, op_stack1) \<Rightarrow>
             if op_stack1 \<noteq> [] \<and> last op_stack1 = ''(''
             then to_rpn_loop tokens output1 (butlast op_stack1)
             else to_rpn_loop tokens output1 op_stack1)
      else if \<not> is_operator_token tok then to_rpn_loop tokens (output @ [tok]) op_stack
      else
        (case pop_operators tok output op_stack of
           (output1, op_stack1) \<Rightarrow> to_rpn_loop tokens output1 (op_stack1 @ [tok])))"

definition to_rpn :: "string list \<Rightarrow> string list" where
  "to_rpn tokens = (case to_rpn_loop tokens [] [] of (output, op_stack) \<Rightarrow> drain_stack output op_stack)"

subsection \<open>Evaluation of the postfix form\<close>

text \<open>
  One iteration of the loop of \<^verbatim>\<open>eval_rpn\<close> (lines 310-347). The result is \<open>None\<close>
  where the stemmer reads outside its buffer.
\<close>

definition eval_token :: "SearchEngine \<Rightarrow> string \<Rightarrow> int list list \<Rightarrow> int list list option" where
  "eval_token e tok stack =
     (if \<not> is_operator_token tok then
        do { stemmed \<leftarrow> stem tok; Some (stack @ [posting_doc_ids e stemmed]) }
      else if tok = ''not'' then
        (if stack = [] then Some stack
         else
           let right = last stack; stack1 = butlast stack in
           if stack1 \<noteq> [] then
             let left = last stack1; stack2 = butlast stack1
             in Some (stack2 @ [difference left right])
           else Some (stack1 @ [difference (all_document_ids e) right]))
      else if length stack < 2 then Some stack
      else
        let right = last stack; stack1 = butlast stack;
            left = last stack1; stack2 = butlast stack1
        in if tok = ''and'' then Some (stack2 @ [intersect left right])
           else if tok = ''or'' then Some (stack2 @ [union_lists left right])
           else Some stack2)"

fun eval_loop :: "SearchEngine \<Rightarrow> string list \<Rightarrow> int list list \<Rightarrow> int list list option" where
  "eval_loop e [] stack = Some stack"
| "eval_loop e (tok # rpn_tokens) stack =
     (case eval_token e tok stack of
        None \<Rightarrow> None
      | Some stack1 \<Rightarrow> eval_loop e rpn_tokens stack1)"

definition eval_rpn :: "SearchEngine \<Rightarrow> string list \<Rightarrow> int list option" where
  "eval_rpn e rpn_tokens =
     (case eval_loop e rpn_tokens [] of
        None \<Rightarrow> None
      | Some stack \<Rightarrow> Some (if stack = [] then [] else last stack))"

subsection \<open>Query terms, ranking and the result list\<close>

fun extract_loop :: "string list \<Rightarrow> string list \<Rightarrow> string list option" where
  "extract_loop [] unique_terms = Some unique_terms"
| "extract_loop (token # tokens) unique_terms =
     (if token = [] \<or> is_operator_token token \<or> token = ''('' \<or> token = '')'' then
        extract_loop tokens unique_terms
      else
        (case stem token of
           None \<Rightarrow> None
         | Some stemmed \<Rightarrow>
             if stemmed = [] then extract_loop tokens unique_terms
             else if stemmed \<in> set unique_terms then extract_loop tokens unique_terms
             else extract_loop tokens (unique_terms @ [stemmed])))"

definition extract_query_terms :: "string list \<Rightarrow> string list option" where
  "extract_query_terms tokens = extract_loop tokens []"

definition prepare_query :: "string \<Rightarrow> string" where
  "prepare_query query =
     concat (map (\<lambda>c. if c = CHR ''('' \<or> c = CHR '')'' then [CHR '' '', c, CHR '' ''] else [c]) query)"

text \<open>
  \<^verbatim>\<open>while (iss >> token)\<close>: formatted extraction skips white space and reads up to the
  next white space. \<open>token\<close> holds the characters read so far.
\<close>

fun extract_tokens :: "string \<Rightarrow> string \<Rightarrow> string list" where
  "extract_tokens [] token = (if token = [] then [] else [token])"
| "extract_tokens (c # cs) token =
     (if is_space c then (if token = [] then extract_tokens cs [] else token # extract_tokens cs [])
      else extract_tokens cs (token @ [c]))"

definition query_tokens_of :: "string \<Rightarrow> string list" where
  "query_tokens_of query =
     filter (\<lambda>normalized. normalized \<noteq> [])
       (map normalize_query_token (extract_tokens (prepare_query query) []))"

text \<open>
  The ranking loop of \<^verbatim>\<open>search\<close> (lines 464-481) is a selection sort on the parallel
  arrays \<open>doc_ids\<close> and \<open>scores\<close>. A score is a \<^verbatim>\<open>double\<close> computed by
  \<^verbatim>\<open>compute_doc_score\<close>; the loop only compares scores with \<^verbatim>\<open>>\<close> and \<^verbatim>\<open>==\<close>, so the
  model takes them from any linear order.
\<close>

definition better :: "int list \<Rightarrow> ('s :: linorder) list \<Rightarrow> nat \<Rightarrow> nat \<Rightarrow> bool" where
  "better doc_ids scores j best_idx =
     (scores ! j > scores ! best_idx \<or>
      (scores ! j = scores ! best_idx \<and> doc_ids ! j < doc_ids ! best_idx))"

function find_best :: "int list \<Rightarrow> ('s :: linorder) list \<Rightarrow> nat \<Rightarrow> nat \<Rightarrow> nat" where
  "find_best doc_ids scores j best_idx =
     (if j < length doc_ids then
        find_best doc_ids scores (j + 1) (if better doc_ids scores j best_idx then j else best_idx)
      else best_idx)"
  by pat_completeness auto
termination
  by (relation "measure (\<lambda>(doc_ids, scores, j, best_idx). length doc_ids - j)") auto

declare find_best.simps [simp del]

function rank_loop :: "int list \<Rightarrow> ('s :: linorder) list \<Rightarrow> nat \<Rightarrow> int list \<times> 's list" where
  "rank_loop doc_ids scores i =
     (if i < length doc_ids then
        let best_idx = find_best doc_ids scores (i + 1) i in
        if best_idx \<noteq> i then
          rank_loop (doc_ids[i := doc_ids ! best_idx, best_idx := doc_ids ! i])
                    (scores[i := scores ! best_idx, best_idx := scores ! i]) (i + 1)
        else rank_loop doc_ids scores (i + 1)
      else (doc_ids, scores))"
  by pat_completeness auto
termination
  by (relation "measure (\<lambda>(doc_ids, scores, i). length doc_ids - i)") auto

declare rank_loop.simps [simp del]

text \<open>
  Lines 483-488. The source checks \<open>doc_id\<close> against \<open>doc_urls_.size()\<close> only and then
  reads \<open>doc_titles_[doc_id]\<close>; the model returns \<open>None\<close> if that read is out of range.
\<close>

fun collect_results :: "SearchEngine \<Rightarrow> int list \<Rightarrow> SearchResult list \<Rightarrow> SearchResult list option" where
  "collect_results e [] results = Some results"
| "collect_results e (d # ds) results =
     (if d \<ge> 0 \<and> nat d < length (doc_urls e) then
        (if nat d < length (doc_titles e) then
           collect_results e ds
             (results @ [\<lparr>res_doc_id = d, res_url = doc_urls e ! nat d,
                          res_title = doc_titles e ! nat d\<rparr>])
         else None)
      else collect_results e ds results)"

text \<open>
  \<^verbatim>\<open>search\<close> returns the results and stores the total in \<open>*total_matches\<close>; the model
  returns the pair. \<open>score doc_id query_terms\<close> stands for
  \<^verbatim>\<open>compute_doc_score(doc_id, query_terms)\<close>.
\<close>

definition search_with ::
  "(int \<Rightarrow> string list \<Rightarrow> 's :: linorder) \<Rightarrow> SearchEngine \<Rightarrow> string \<Rightarrow> (SearchResult list \<times> nat) option" where
  "search_with score e query =
     (let query_tokens = query_tokens_of query in
      if query_tokens = [] then Some ([], 0)
      else do {
        doc_ids \<leftarrow> eval_rpn e (to_rpn query_tokens);
        query_terms \<leftarrow> extract_query_terms query_tokens;
        let scores = map (\<lambda>d. score d query_terms) doc_ids;
        let ranked = fst (rank_loop doc_ids scores 0);
        results \<leftarrow> collect_results e (take 100 ranked) [];
        Some (results, length doc_ids)
      })"

section \<open>The two analysis paths\<close>






section \<open>Index builder (index\_builder.h, index\_builder.cpp)\<close>

text \<open>
  The ways in which a build stops instead of returning: the stemmer reads outside its
  buffer; a negative \<^verbatim>\<open>doc_id\<close>, converted to \<^verbatim>\<open>size_t\<close>, makes the growth loops of
  \<^verbatim>\<open>add_document\<close> and \<^verbatim>\<open>load_index\<close> run until memory is exhausted; \<^verbatim>\<open>std::stoi\<close>
  throws, and nothing catches it; a read or write falls outside an array; a value is
  used that no read has set; an \<^verbatim>\<open>int\<close> counter is incremented beyond its range.
\<close>

datatype failure =
  Stemmer_Out_Of_Bounds
  | Growth_Exhausts_Memory
  | Stoi_Invalid_Argument
  | Stoi_Out_Of_Range
  | Array_Out_Of_Bounds
  | Indeterminate_Value
  | Signed_Overflow

datatype TermPosting = TermPosting (tp_doc_id: int) (tp_tf: int)

text \<open>
  The fields \<^verbatim>\<open>zipf_\<close> and \<^verbatim>\<open>stats_\<close> are counters that are written and never read by
  the operations modelled here; they are left out. \<^verbatim>\<open>int\<close> values are modelled by
  \<open>int\<close>. A \<open>doc_id\<close> comes from \<^verbatim>\<open>std::stoi\<close>, which checks the range. A \<open>tf\<close> and
  the size of a posting list count occurrences and documents and are taken to stay below
  \<open>2^31\<close>. The length of a document is the \<^verbatim>\<open>size_t\<close> \<^verbatim>\<open>tokens.size()\<close> converted
  to \<^verbatim>\<open>int\<close>, which \<open>to_int32\<close> writes out.
\<close>

definition to_int32 :: "nat \<Rightarrow> int" where
  "to_int32 n = (int n + 2147483648) mod 4294967296 - 2147483648"

record IndexBuilder =
  b_inverted_index :: "(string, TermPosting list) hashmap"
  b_doc_urls :: "string list"
  b_doc_titles :: "string list"
  b_doc_lengths :: "int list"

definition new_builder :: IndexBuilder where
  "new_builder = \<lparr>b_inverted_index = [], b_doc_urls = [], b_doc_titles = [], b_doc_lengths = []\<rparr>"

text \<open>Lines 10-14: one empty slot is pushed on each array until \<open>doc_id\<close> is an index.\<close>

function grow :: "IndexBuilder \<Rightarrow> nat \<Rightarrow> IndexBuilder" where
  "grow b doc_id =
     (if length (b_doc_urls b) \<le> doc_id then
        grow (b\<lparr>b_doc_urls := b_doc_urls b @ [[]],
                b_doc_titles := b_doc_titles b @ [[]],
                b_doc_lengths := b_doc_lengths b @ [0]\<rparr>) doc_id
      else b)"
  by pat_completeness auto
termination
  by (relation "measure (\<lambda>(b, doc_id). doc_id + 1 - length (b_doc_urls b))") auto

declare grow.simps [simp del]

text \<open>Lines 30-48: the per-document map from a stem to its number of occurrences.\<close>

fun count_terms :: "string list \<Rightarrow> (string, int) hashmap \<Rightarrow> failure + (string, int) hashmap" where
  "count_terms [] term_freqs = Inr term_freqs"
| "count_terms (token # tokens) term_freqs =
     (case stem token of
        None \<Rightarrow> Inl Stemmer_Out_Of_Bounds
      | Some stemmed \<Rightarrow>
          if stemmed = [] then count_terms tokens term_freqs
          else
            (case hm_find term_freqs stemmed of
               Some current_tf \<Rightarrow> count_terms tokens (hm_insert stemmed (current_tf + 1) term_freqs)
             | None \<Rightarrow> count_terms tokens (hm_insert stemmed 1 term_freqs)))"

text \<open>
  Lines 50-62: for every entry of \<open>term_freqs\<close>, the posting is pushed on the term's
  list (the empty list if the term is new) and the list is stored back.
\<close>

fun append_postings ::
  "int \<Rightarrow> (string, int) hashmap \<Rightarrow> (string, TermPosting list) hashmap \<Rightarrow> (string, TermPosting list) hashmap" where
  "append_postings doc_id [] index = index"
| "append_postings doc_id ((stemmed, tf) # term_freqs) index =
     append_postings doc_id term_freqs
       (case hm_find index stemmed of
          Some posting_list \<Rightarrow> hm_insert stemmed (posting_list @ [TermPosting doc_id tf]) index
        | None \<Rightarrow> hm_insert stemmed ([] @ [TermPosting doc_id tf]) index)"

definition add_document ::
  "IndexBuilder \<Rightarrow> int \<Rightarrow> string \<Rightarrow> string \<Rightarrow> string \<Rightarrow> failure + IndexBuilder" where
  "add_document b doc_id url title text =
     (if doc_id < 0 then Inl Growth_Exhausts_Memory
      else
        let b1 = grow b (nat doc_id) in
        if \<not> (nat doc_id < length (b_doc_titles b1) \<and> nat doc_id < length (b_doc_lengths b1))
        then Inl Array_Out_Of_Bounds
        else
          let tokens = tokenize text;
              b2 = b1\<lparr>b_doc_urls := (b_doc_urls b1)[nat doc_id := url],
                       b_doc_titles := (b_doc_titles b1)[nat doc_id := title],
                       b_doc_lengths := (b_doc_lengths b1)[nat doc_id := to_int32 (length tokens)]\<rparr>
          in case count_terms tokens [] of
               Inl f \<Rightarrow> Inl f
             | Inr term_freqs \<Rightarrow>
                 Inr (b2\<lparr>b_inverted_index := append_postings doc_id term_freqs (b_inverted_index b2)\<rparr>))"

subsection \<open>Reading the document stream\<close>

text \<open>
  \<^verbatim>\<open>json.find(pattern, pos)\<close>: the first index at or after \<open>pos\<close> where \<open>pattern\<close>
  occurs, \<open>None\<close> for \<^verbatim>\<open>npos\<close>.
\<close>

function find_from :: "string \<Rightarrow> string \<Rightarrow> nat \<Rightarrow> nat option" where
  "find_from str pattern pos =
     (if pos + length pattern > length str then None
      else if take (length pattern) (drop pos str) = pattern then Some pos
      else find_from str pattern (pos + 1))"
  by pat_completeness auto
termination
  by (relation "measure (\<lambda>(str, pattern, pos). length str + 1 - pos)") auto

declare find_from.simps [simp del]

function skip_blanks :: "string \<Rightarrow> nat \<Rightarrow> nat" where
  "skip_blanks json value_start =
     (if value_start < length json \<and> (json ! value_start = CHR '' '' \<or> json ! value_start = CHR 0x09)
      then skip_blanks json (value_start + 1) else value_start)"
  by pat_completeness auto
termination
  by (relation "measure (\<lambda>(json, value_start). length json - value_start)") auto

declare skip_blanks.simps [simp del]

text \<open>Lines 82-94: the characters of a string value, from the index after the opening quote.\<close>

fun unescape :: "string \<Rightarrow> string \<Rightarrow> string" where
  "unescape [] result = result"
| "unescape [c] result = (if c = CHR 0x22 then result else result @ [c])"
| "unescape (c # d # rest) result =
     (if c = CHR 0x5C then
        unescape rest
          (result @ [if d = CHR ''n'' then CHR 0x0A
                     else if d = CHR ''t'' then CHR 0x09
                     else if d = CHR ''r'' then CHR 0x0D
                     else d])
      else if c = CHR 0x22 then result
      else unescape (d # rest) (result @ [c]))"

definition extract_json_field :: "string \<Rightarrow> string \<Rightarrow> nat \<Rightarrow> string" where
  "extract_json_field json field_name start_pos =
     (case find_from json ([CHR 0x22] @ field_name @ [CHR 0x22, CHR '':'']) start_pos of
        None \<Rightarrow> []
      | Some field_pos \<Rightarrow>
          (case find_from json '':'' field_pos of
             None \<Rightarrow> []
           | Some colon \<Rightarrow>
               let value_start = skip_blanks json (colon + 1) in
               if \<not> (value_start < length json \<and> json ! value_start = CHR 0x22) then
                 (case find_from json '','' value_start of
                    Some value_end \<Rightarrow> take (value_end - value_start) (drop value_start json)
                  | None \<Rightarrow>
                      (case find_from json ''}'' value_start of
                         Some value_end \<Rightarrow> take (value_end - value_start) (drop value_start json)
                       | None \<Rightarrow> drop value_start json))
               else unescape (drop (value_start + 1) json) []))"

text \<open>
  \<^verbatim>\<open>std::stoi\<close>: leading white space, an optional sign, then decimal digits; it throws
  \<^verbatim>\<open>std::invalid_argument\<close> if there is no digit and \<^verbatim>\<open>std::out_of_range\<close> if the
  value does not fit an \<^verbatim>\<open>int\<close>. What follows the digits is ignored.
\<close>

definition digit_value :: "char \<Rightarrow> int" where
  "digit_value c = int (of_char c) - 48"

definition stoi :: "string \<Rightarrow> failure + int" where
  "stoi str =
     (let s1 = dropWhile is_space str;
          negative = (s1 \<noteq> [] \<and> hd s1 = CHR ''-'');
          s2 = (if s1 \<noteq> [] \<and> (hd s1 = CHR ''-'' \<or> hd s1 = CHR ''+'') then tl s1 else s1);
          digits = takeWhile is_digit s2;
          magnitude = foldl (\<lambda>acc c. 10 * acc + digit_value c) 0 digits;
          val = (if negative then - magnitude else magnitude)
      in if digits = [] then Inl Stoi_Invalid_Argument
         else if val < - 2147483648 \<or> val > 2147483647 then Inl Stoi_Out_Of_Range
         else Inr val)"

text \<open>
  Lines 111-130, for the lines that \<^verbatim>\<open>std::getline\<close> reads from the input file. The
  counter \<open>doc_count\<close> only feeds the statistics.
\<close>

fun build_lines :: "string list \<Rightarrow> IndexBuilder \<Rightarrow> failure + IndexBuilder" where
  "build_lines [] b = Inr b"
| "build_lines (line # lines) b =
     (if line = [] \<or> length line < 50 then build_lines lines b
      else
        let doc_id_str = extract_json_field line ''doc_id'' 0 in
        if doc_id_str = [] then build_lines lines b
        else
          (case stoi doc_id_str of
             Inl f \<Rightarrow> Inl f
           | Inr doc_id \<Rightarrow>
               let url = extract_json_field line ''url'' 0;
                   title = extract_json_field line ''title'' 0;
                   text = extract_json_field line ''text'' 0
               in if text = [] \<or> length text < 50 then build_lines lines b
                  else
                    (case add_document b doc_id url title text of
                       Inl f \<Rightarrow> Inl f
                     | Inr b1 \<Rightarrow> build_lines lines b1)))"

definition build_from_jsonl :: "string list \<Rightarrow> failure + IndexBuilder" where
  "build_from_jsonl lines = build_lines lines new_builder"

subsection \<open>Saving the index\<close>

text \<open>
  \<^verbatim>\<open>operator<<\<close> for an integer writes its decimal digits, with a minus sign for a
  negative \<^verbatim>\<open>int\<close>.
\<close>

definition digit_char :: "nat \<Rightarrow> char" where
  "digit_char n = char_of (48 + n)"

function show_nat :: "nat \<Rightarrow> string" where
  "show_nat n = (if n < 10 then [digit_char n] else show_nat (n div 10) @ [digit_char (n mod 10)])"
  by pat_completeness auto
termination
  by (relation "measure id") auto

declare show_nat.simps [simp del]

definition show_int :: "int \<Rightarrow> string" where
  "show_int i = (if i < 0 then CHR ''-'' # show_nat (nat (- i)) else show_nat (nat i))"

text \<open>
  The four files. \<open>index_bin\<close> is the sequence of \<^verbatim>\<open>int\<close>s written to
  \<^verbatim>\<open>index.bin\<close>: the source writes the four bytes of each \<^verbatim>\<open>int\<close> and reads four bytes
  back into an \<^verbatim>\<open>int\<close> on the same machine, so a cell of the model is one such
  \<^verbatim>\<open>int\<close>. \<open>doc_lengths_txt\<close> is \<open>None\<close> when the file cannot be opened, which the
  loader tolerates. \<^verbatim>\<open>save_index\<close> is modelled for files that open; it writes nothing
  otherwise.
\<close>

record IndexFiles =
  vocabulary_txt :: string
  index_bin :: "int list"
  documents_txt :: string
  doc_lengths_txt :: "string option"

text \<open>
  Lines 160-175: one vocabulary line and one size-prefixed record per term. \<open>term_id\<close>
  is an \<^verbatim>\<open>int\<close> that is incremented after each term.
\<close>

definition posting_cells :: "TermPosting list \<Rightarrow> int list" where
  "posting_cells posting_list =
     int (length posting_list) # concat (map (\<lambda>p. [tp_doc_id p, tp_tf p]) posting_list)"

fun save_terms :: "(string, TermPosting list) hashmap \<Rightarrow> nat \<Rightarrow> failure + (string \<times> int list)" where
  "save_terms [] term_id = Inr ([], [])"
| "save_terms ((term, posting_list) # entries) term_id =
     (if int term_id \<ge> 2147483647 then Inl Signed_Overflow
      else
        (case save_terms entries (term_id + 1) of
           Inl f \<Rightarrow> Inl f
         | Inr (vocab, cells) \<Rightarrow>
             Inr (show_nat term_id @ '' '' @ term @ '' '' @ show_nat (length posting_list)
                    @ [CHR 0x0A] @ vocab,
                  posting_cells posting_list @ cells)))"

text \<open>Lines 177-179; \<open>doc_titles_[i]\<close> is read for every index of \<open>doc_urls_\<close>.\<close>

function save_documents :: "string list \<Rightarrow> string list \<Rightarrow> nat \<Rightarrow> failure + string" where
  "save_documents urls titles i =
     (if i < length urls then
        (if i < length titles then
           (case save_documents urls titles (i + 1) of
              Inl f \<Rightarrow> Inl f
            | Inr rest \<Rightarrow>
                Inr (show_nat i @ [CHR 0x09] @ urls ! i @ [CHR 0x09] @ titles ! i @ [CHR 0x0A] @ rest))
         else Inl Array_Out_Of_Bounds)
      else Inr [])"
  by pat_completeness auto
termination
  by (relation "measure (\<lambda>(urls, titles, i). length urls - i)") auto

declare save_documents.simps [simp del]

definition save_lengths :: "int list \<Rightarrow> string" where
  "save_lengths lengths = concat (map (\<lambda>l. show_int l @ [CHR 0x0A]) lengths)"

definition save_index :: "IndexBuilder \<Rightarrow> failure + IndexFiles" where
  "save_index b =
     (case save_terms (b_inverted_index b) 0 of
        Inl f \<Rightarrow> Inl f
      | Inr (vocab, cells) \<Rightarrow>
          (case save_documents (b_doc_urls b) (b_doc_titles b) 0 of
             Inl f \<Rightarrow> Inl f
           | Inr docs \<Rightarrow>
               Inr \<lparr>vocabulary_txt = vocab, index_bin = cells, documents_txt = docs,
                    doc_lengths_txt = Some (save_lengths (b_doc_lengths b))\<rparr>))"

subsection \<open>Loading the index (search\_engine.cpp, lines 10-89)\<close>

text \<open>\<^verbatim>\<open>while (std::getline(file, line))\<close>: the lines of a text, without their newline.\<close>

fun get_lines :: "string \<Rightarrow> string \<Rightarrow> string list" where
  "get_lines [] line = (if line = [] then [] else [line])"
| "get_lines (c # cs) line =
     (if c = CHR 0x0A then line # get_lines cs [] else get_lines cs (line @ [c]))"

text \<open>
  Formatted extraction of an \<^verbatim>\<open>int\<close> (\<^verbatim>\<open>stream >> n\<close>) from the characters of a good
  stream. White space is skipped. If nothing follows, the sentry fails and \<open>n\<close> keeps
  its old value (\<open>Int_None\<close>). Otherwise a sign and digits are read: without a digit the
  extraction fails and stores 0, beyond the range of \<^verbatim>\<open>int\<close> it fails and stores the
  nearest bound (\<open>Int_Fail\<close>); with digits in range it succeeds (\<open>Int_Ok\<close>, with the
  characters that remain; none remaining means the stream is at its end).
\<close>

datatype int_extraction = Int_None | Int_Fail int | Int_Ok int string

definition extract_int :: "string \<Rightarrow> int_extraction" where
  "extract_int s =
     (let s1 = dropWhile is_space s in
      if s1 = [] then Int_None
      else
        let negative = (hd s1 = CHR ''-'');
            s2 = (if hd s1 = CHR ''-'' \<or> hd s1 = CHR ''+'' then tl s1 else s1);
            digits = takeWhile is_digit s2;
            magnitude = foldl (\<lambda>acc c. 10 * acc + digit_value c) 0 digits;
            val = (if negative then - magnitude else magnitude)
        in if digits = [] then Int_Fail 0
           else if val > 2147483647 then Int_Fail 2147483647
           else if val < - 2147483648 then Int_Fail (- 2147483648)
           else Int_Ok val (dropWhile is_digit s2))"

text \<open>
  Line 30, \<^verbatim>\<open>iss >> term_id >> term >> doc_freq\<close>: only \<open>term\<close> is used afterwards. It
  stays empty unless \<open>term_id\<close> was extracted and a word follows.
\<close>

definition vocabulary_term :: "string \<Rightarrow> string" where
  "vocabulary_term line =
     (case extract_int line of
        Int_Ok term_id rest \<Rightarrow> takeWhile (\<lambda>c. \<not> is_space c) (dropWhile is_space rest)
      | _ \<Rightarrow> [])"

text \<open>
  Lines 33-42: \<open>actual_size\<close> and then that many pairs are read from \<^verbatim>\<open>index.bin\<close>. A
  read past the end of the file leaves its variable unset.
\<close>

fun read_postings :: "nat \<Rightarrow> int list \<Rightarrow> failure + (SearchPosting list \<times> int list)" where
  "read_postings 0 cells = Inr ([], cells)"
| "read_postings (Suc n) (doc_id # tf # cells) =
     (case read_postings n cells of
        Inl f \<Rightarrow> Inl f
      | Inr (posting_list, rest) \<Rightarrow> Inr (SearchPosting doc_id tf # posting_list, rest))"
| "read_postings (Suc n) _ = Inl Indeterminate_Value"

definition read_posting_list :: "int list \<Rightarrow> failure + (SearchPosting list \<times> int list)" where
  "read_posting_list cells =
     (case cells of
        [] \<Rightarrow> Inl Indeterminate_Value
      | actual_size # rest \<Rightarrow> read_postings (nat actual_size) rest)"

fun load_terms ::
  "string list \<Rightarrow> int list \<Rightarrow> (string, SearchPosting list) hashmap \<Rightarrow>
   failure + (string, SearchPosting list) hashmap" where
  "load_terms [] cells index = Inr index"
| "load_terms (line # lines) cells index =
     (case read_posting_list cells of
        Inl f \<Rightarrow> Inl f
      | Inr (posting_list, rest) \<Rightarrow>
          load_terms lines rest (hm_insert (vocabulary_term line) posting_list index))"

text \<open>
  Lines 48-55. \<^verbatim>\<open>std::getline(iss, str, delim)\<close> on a stream that is not good leaves
  \<open>str\<close> as it is; on a good stream it empties \<open>str\<close> and reads up to the delimiter,
  and reaching the end first ends the stream. \<open>url\<close> is read twice, so that the second
  read replaces what stood between the number and the first tab.
\<close>

definition until_tab :: "string \<Rightarrow> string" where
  "until_tab s = takeWhile (\<lambda>c. c \<noteq> CHR 0x09) s"

definition after_tab :: "string \<Rightarrow> string option" where
  "after_tab s = (case dropWhile (\<lambda>c. c \<noteq> CHR 0x09) s of [] \<Rightarrow> None | c # rest \<Rightarrow> Some rest)"

definition document_fields :: "string \<Rightarrow> string \<times> string" where
  "document_fields rest =
     (if rest = [] then ([], [])
      else
        (case after_tab rest of
           None \<Rightarrow> (until_tab rest, [])
         | Some r1 \<Rightarrow>
             (case after_tab r1 of
                None \<Rightarrow> (until_tab r1, [])
              | Some r2 \<Rightarrow> (until_tab r1, r2))))"

definition new_engine :: SearchEngine where
  "new_engine = \<lparr>inverted_index = [], doc_urls = [], doc_titles = [], doc_lengths = []\<rparr>"

function grow_engine :: "SearchEngine \<Rightarrow> nat \<Rightarrow> SearchEngine" where
  "grow_engine e doc_id =
     (if length (doc_urls e) \<le> doc_id then
        grow_engine (e\<lparr>doc_urls := doc_urls e @ [[]],
                       doc_titles := doc_titles e @ [[]],
                       doc_lengths := doc_lengths e @ [0]\<rparr>) doc_id
      else e)"
  by pat_completeness auto
termination
  by (relation "measure (\<lambda>(e, doc_id). doc_id + 1 - length (doc_urls e))") auto

declare grow_engine.simps [simp del]

definition load_document :: "SearchEngine \<Rightarrow> string \<Rightarrow> failure + SearchEngine" where
  "load_document e line =
     (case (case extract_int line of
              Int_None \<Rightarrow> None
            | Int_Fail doc_id \<Rightarrow> Some (doc_id, [], [])
            | Int_Ok doc_id rest \<Rightarrow> Some (doc_id, document_fields rest)) of
        None \<Rightarrow> Inl Indeterminate_Value
      | Some (doc_id, url, title) \<Rightarrow>
          if doc_id < 0 then Inl Growth_Exhausts_Memory
          else
            let e1 = grow_engine e (nat doc_id) in
            if \<not> nat doc_id < length (doc_titles e1) then Inl Array_Out_Of_Bounds
            else Inr (e1\<lparr>doc_urls := (doc_urls e1)[nat doc_id := url],
                          doc_titles := (doc_titles e1)[nat doc_id := title]\<rparr>))"

fun load_documents :: "string list \<Rightarrow> SearchEngine \<Rightarrow> failure + SearchEngine" where
  "load_documents [] e = Inr e"
| "load_documents (line # lines) e =
     (case load_document e line of
        Inl f \<Rightarrow> Inl f
      | Inr e1 \<Rightarrow> load_documents lines e1)"

text \<open>
  Lines 67-75, \<^verbatim>\<open>while (lengths_file >> doc_length)\<close>: the loop ends at the first
  extraction that fails. \<open>fuel\<close> bounds the number of extractions by the number of
  characters, each extraction consuming at least one.
\<close>

fun load_lengths :: "nat \<Rightarrow> string \<Rightarrow> nat \<Rightarrow> int list \<Rightarrow> int list" where
  "load_lengths 0 s length_idx lengths = lengths"
| "load_lengths (Suc fuel) s length_idx lengths =
     (case extract_int s of
        Int_Ok doc_length rest \<Rightarrow>
          load_lengths fuel rest (length_idx + 1)
            ((lengths @ replicate (length_idx + 1 - length lengths) 0)[length_idx := doc_length])
      | _ \<Rightarrow> lengths)"

definition load_index :: "IndexFiles \<Rightarrow> failure + SearchEngine" where
  "load_index files =
     (case load_terms (get_lines (vocabulary_txt files) []) (index_bin files) [] of
        Inl f \<Rightarrow> Inl f
      | Inr index \<Rightarrow>
          (case load_documents (get_lines (documents_txt files) []) (new_engine\<lparr>inverted_index := index\<rparr>) of
             Inl f \<Rightarrow> Inl f
           | Inr e \<Rightarrow>
               (case doc_lengths_txt files of
                  None \<Rightarrow> Inr e
                | Some text \<Rightarrow>
                    Inr (e\<lparr>doc_lengths := load_lengths (length text) text 0 (doc_lengths e)\<rparr>))))"

subsection \<open>A build as a sequence of calls\<close>

text \<open>
  \<open>add_documents\<close> calls \<^verbatim>\<open>add_document\<close> for each \<open>(doc_id, url, title, text)\<close> in
  turn, and \<open>build_and_save\<close> then calls \<^verbatim>\<open>save_index\<close>, as \<^verbatim>\<open>main\<close> does after
  \<^verbatim>\<open>build_from_jsonl\<close>.
\<close>

fun add_documents ::
  "(int \<times> string \<times> string \<times> string) list \<Rightarrow> IndexBuilder \<Rightarrow> failure + IndexBuilder" where
  "add_documents [] b = Inr b"
| "add_documents ((doc_id, url, title, text) # docs) b =
     (case add_document b doc_id url title text of
        Inl f \<Rightarrow> Inl f
      | Inr b1 \<Rightarrow> add_documents docs b1)"

definition build_and_save :: "(int \<times> string \<times> string \<times> string) list \<Rightarrow> failure + IndexFiles" where
  "build_and_save docs =
     (case add_documents docs new_builder of
        Inl f \<Rightarrow> Inl f
      | Inr b \<Rightarrow> save_index b)"

section \<open>Auxiliary definitions for the statements\<close>

text \<open>
  The order in which the ranking loop leaves its pairs of a document and a score: higher
  score first, and among equal scores the smaller \<open>doc_id\<close> first.
\<close>

definition ranks_before :: "(int \<times> 's :: linorder) \<Rightarrow> (int \<times> 's) \<Rightarrow> bool" where
  "ranks_before p q = (snd p > snd q \<or> (snd p = snd q \<and> fst p \<le> fst q))"

text \<open>
  The invariant of a build whose documents arrive with increasing ids: every posting list
  is strictly ascending, with frequencies of at least 1 and ids below \<open>bound\<close>, and
  no term has two entries.
\<close>

definition postings_ok :: "int \<Rightarrow> TermPosting list \<Rightarrow> bool" where
  "postings_ok bound posting_list =
     (sorted_wrt (<) (map tp_doc_id posting_list)
      \<and> list_all (\<lambda>p. tp_tf p \<ge> 1 \<and> tp_doc_id p < bound) posting_list)"

definition builder_ok :: "int \<Rightarrow> IndexBuilder \<Rightarrow> bool" where
  "builder_ok bound b =
     (distinct (map fst (b_inverted_index b))
      \<and> list_all (\<lambda>(term, posting_list). postings_ok bound posting_list) (b_inverted_index b))"

text \<open>A string without white space, as \<^verbatim>\<open>iss >> term\<close> reads a word.\<close>

definition no_space :: "string \<Rightarrow> bool" where
  "no_space w = list_all (\<lambda>c. \<not> is_space c) w"

text \<open>
  For the comparison of a loaded index with the builder's: the posting of the engine with
  the fields of a posting of the builder; the range of an \<^verbatim>\<open>int\<close>; what
  \<^verbatim>\<open>add_document\<close> keeps true of the builder (one entry per term, terms that are words
  without white space, three document arrays of one length, at most \<open>2^31\<close> slots,
  lengths in the range of \<^verbatim>\<open>int\<close>); and URLs and titles that fit the line format of
  \<^verbatim>\<open>documents.txt\<close>: no tab or newline in a URL, no newline in a title.
\<close>

definition to_search :: "TermPosting \<Rightarrow> SearchPosting" where
  "to_search p = SearchPosting (tp_doc_id p) (tp_tf p)"

definition int32 :: "int \<Rightarrow> bool" where
  "int32 i = (- 2147483648 \<le> i \<and> i \<le> 2147483647)"

definition builder_wf :: "IndexBuilder \<Rightarrow> bool" where
  "builder_wf b =
     (distinct (map fst (b_inverted_index b))
      \<and> list_all (\<lambda>(term, posting_list). term \<noteq> [] \<and> no_space term) (b_inverted_index b)
      \<and> length (b_doc_titles b) = length (b_doc_urls b)
      \<and> length (b_doc_lengths b) = length (b_doc_urls b)
      \<and> int (length (b_doc_urls b)) \<le> 2147483648
      \<and> list_all int32 (b_doc_lengths b))"

definition plain_fields :: "string list \<Rightarrow> string list \<Rightarrow> bool" where
  "plain_fields urls titles =
     (list_all (\<lambda>url. CHR 0x09 \<notin> set url \<and> CHR 0x0A \<notin> set url) urls
      \<and> list_all (\<lambda>title. CHR 0x0A \<notin> set title) titles)"


definition example_engine :: SearchEngine where
  "example_engine =
     \<lparr>inverted_index =
        [(''vault'', [SearchPosting 0 2, SearchPosting 2 2]),
         (''nuka'', [SearchPosting 1 1]),
         (''lost'', [SearchPosting 7 1, SearchPosting (- 3) 1, SearchPosting 1 1])],
      doc_urls = [''u0'', ''u1'', ''u2'', [], ''u4''],
      doc_titles = [''Vault'', ''Nuka'', ''Raiders'', [], ''Gone''],
      doc_lengths = [4, 5, 5, 0, 2]\<rparr>"

definition example_score :: "int \<Rightarrow> string list \<Rightarrow> int" where
  "example_score d query_terms = (if d = 2 then 3 else 1)"

text \<open>Lines of a document stream: a record with the given text for \<open>doc_id\<close>.\<close>

definition quoted :: "string \<Rightarrow> string" where
  "quoted s = [CHR 0x22] @ s @ [CHR 0x22]"

definition json_record :: "string \<Rightarrow> string \<Rightarrow> string \<Rightarrow> string \<Rightarrow> string" where
  "json_record id_text url title text =
     ''{'' @ quoted ''doc_id'' @ '': '' @ id_text @ '', '' @ quoted ''url'' @ '': '' @ quoted url
     @ '', '' @ quoted ''title'' @ '': '' @ quoted title @ '', '' @ quoted ''text'' @ '': ''
     @ quoted text @ ''}''"

definition long_text :: string where
  "long_text = ''Nuka-Cola Quantum glows in the dark. vault vault Nuka-Cola Quantum''"

text \<open>Two builds over the same term: ids supplied out of order, and in order.\<close>

definition out_of_order_docs :: "(int \<times> string \<times> string \<times> string) list" where
  "out_of_order_docs = [(1, ''u1'', ''t1'', ''vault''), (0, ''u0'', ''t0'', ''vault'')]"

definition in_order_docs :: "(int \<times> string \<times> string \<times> string) list" where
  "in_order_docs = [(0, ''u0'', ''t0'', ''vault vault''), (2, ''u2'', ''t2'', ''vault'')]"

section \<open>Properties of the set operations\<close>

lemma intersect_loop_rest:
  "intersect_loop list1 list2 i j result = result @ isect_rest (drop i list1) (drop j list2)"
proof (induction list1 list2 i j result rule: intersect_loop.induct)
  case (1 list1 list2 i j result)
  show ?case
  proof (cases "i < length list1 \<and> j < length list2")
    case True
    then have d: "drop i list1 = list1 ! i # drop (Suc i) list1"
      "drop j list2 = list2 ! j # drop (Suc j) list2"
      by (simp_all add: Cons_nth_drop_Suc)
    show ?thesis
      using True 1 by (subst intersect_loop.simps) (simp add: d)
  next
    case False
    then have "drop i list1 = [] \<or> drop j list2 = []" by auto
    then have "isect_rest (drop i list1) (drop j list2) = []"
      by (cases "drop i list1") auto
    with False show ?thesis by (subst intersect_loop.simps) auto
  qed
qed

lemma union_rest_Nil [simp]: "union_rest [] ys = ys"
  by (cases ys) simp_all

lemma union_loop_rest:
  "union_loop list1 list2 i j result = result @ union_rest (drop i list1) (drop j list2)"
proof (induction list1 list2 i j result rule: union_loop.induct)
  case (1 list1 list2 i j result)
  consider (both) "i < length list1" "j < length list2"
    | (left) "i < length list1" "j \<ge> length list2"
    | (right) "i \<ge> length list1" "j < length list2"
    | (none) "i \<ge> length list1" "j \<ge> length list2"
    by linarith
  then show ?case
  proof cases
    case both
    then have d: "drop i list1 = list1 ! i # drop (Suc i) list1"
      "drop j list2 = list2 ! j # drop (Suc j) list2"
      by (simp_all add: Cons_nth_drop_Suc)
    show ?thesis
      using both 1 by (subst union_loop.simps) (auto simp: d)
  next
    case left
    then have d: "drop i list1 = list1 ! i # drop (Suc i) list1" "drop j list2 = []"
      by (simp_all add: Cons_nth_drop_Suc)
    show ?thesis
      using left 1 by (subst union_loop.simps) (simp add: d)
  next
    case right
    then have d: "drop j list2 = list2 ! j # drop (Suc j) list2" "drop i list1 = []"
      by (simp_all add: Cons_nth_drop_Suc)
    show ?thesis
      using right 1 by (subst union_loop.simps) (simp add: d)
  next
    case none
    then show ?thesis by (subst union_loop.simps) auto
  qed
qed

lemma difference_loop_rest:
  "difference_loop list1 list2 i j result = result @ diff_rest (drop i list1) (drop j list2)"
proof (induction list1 list2 i j result rule: difference_loop.induct)
  case (1 list1 list2 i j result)
  consider (both) "i < length list1" "j < length list2"
    | (left) "i < length list1" "j \<ge> length list2"
    | (past) "i \<ge> length list1"
    by linarith
  then show ?case
  proof cases
    case both
    then have d: "drop i list1 = list1 ! i # drop (Suc i) list1"
      "drop j list2 = list2 ! j # drop (Suc j) list2"
      by (simp_all add: Cons_nth_drop_Suc)
    show ?thesis
      using both 1 by (subst difference_loop.simps) (simp add: d)
  next
    case left
    then have d: "drop i list1 = list1 ! i # drop (Suc i) list1" "drop j list2 = []"
      by (simp_all add: Cons_nth_drop_Suc)
    show ?thesis
      using left 1 by (subst difference_loop.simps) (simp add: d)
  next
    case past
    then have "diff_rest (drop i list1) (drop j list2) = []"
      by (cases "drop j list2") auto
    with past show ?thesis by (subst difference_loop.simps) auto
  qed
qed

lemma set_isect_rest:
  "sorted_wrt (<) xs \<Longrightarrow> sorted_wrt (<) ys \<Longrightarrow> set (isect_rest xs ys) = set xs \<inter> set ys"
proof (induction xs ys rule: isect_rest.induct)
  case (1 x xs y ys)
  from "1.prems" have gx: "\<forall>a\<in>set xs. x < a" and gy: "\<forall>b\<in>set ys. y < b"
    and sx: "sorted_wrt (<) xs" and sy: "sorted_wrt (<) ys"
    by simp_all
  consider (eq) "x = y" | (lt) "x < y" | (gt) "y < x" by linarith
  then show ?case
  proof cases
    case eq
    with "1.IH"(1) sx sy have "set (isect_rest xs ys) = set xs \<inter> set ys" by simp
    with eq gx gy show ?thesis by auto
  next
    case lt
    with "1.IH"(2) sx "1.prems"(2) have "set (isect_rest xs (y # ys)) = set xs \<inter> set (y # ys)"
      by simp
    moreover have "x \<notin> set (y # ys)" using lt gy by auto
    ultimately show ?thesis using lt by auto
  next
    case gt
    with "1.IH"(3) sy "1.prems"(1) have "set (isect_rest (x # xs) ys) = set (x # xs) \<inter> set ys"
      by simp
    moreover have "y \<notin> set (x # xs)" using gt gx by auto
    ultimately show ?thesis using gt by auto
  qed
qed simp_all

lemma set_union_rest: "set (union_rest xs ys) = set xs \<union> set ys"
  by (induction xs ys rule: union_rest.induct) auto
lemma sorted_union_rest:
  "sorted_wrt (<) xs \<Longrightarrow> sorted_wrt (<) ys \<Longrightarrow> sorted_wrt (<) (union_rest xs ys)"
  by (induction xs ys rule: union_rest.induct) (auto simp: set_union_rest)

lemma set_diff_rest:
  "sorted_wrt (<) xs \<Longrightarrow> sorted ys \<Longrightarrow> set (diff_rest xs ys) = set xs - set ys"
proof (induction xs ys rule: diff_rest.induct)
  case (1 x xs y ys)
  from "1.prems" have gx: "\<forall>a\<in>set xs. x < a" and gy: "\<forall>b\<in>set ys. y \<le> b"
    and sx: "sorted_wrt (<) xs" and sy: "sorted ys"
    by simp_all
  consider (eq) "x = y" | (lt) "x < y" | (gt) "y < x" by linarith
  then show ?case
  proof cases
    case eq
    with "1.IH"(1) sx sy have "set (diff_rest xs ys) = set xs - set ys" by simp
    moreover have "y \<notin> set xs" using eq gx by auto
    ultimately show ?thesis using eq by auto
  next
    case lt
    with "1.IH"(2) sx "1.prems"(2) have "set (diff_rest xs (y # ys)) = set xs - set (y # ys)"
      by simp
    moreover have "x \<notin> set (y # ys)" using lt gy by auto
    ultimately show ?thesis using lt by auto
  next
    case gt
    with "1.IH"(3) sy "1.prems"(1) have "set (diff_rest (x # xs) ys) = set (x # xs) - set ys"
      by simp
    moreover have "y \<notin> set (x # xs)" using gt gx by auto
    ultimately show ?thesis using gt by auto
  qed
qed simp_all

lemma isect_rest_subset: "set (isect_rest xs ys) \<subseteq> set xs"
  by (induction xs ys rule: isect_rest.induct) auto
lemma diff_rest_subset: "set (diff_rest xs ys) \<subseteq> set xs"
  by (induction xs ys rule: diff_rest.induct) auto
lemma sorted_isect_rest: "sorted_wrt (<) xs \<Longrightarrow> sorted_wrt (<) (isect_rest xs ys)"
proof (induction xs ys rule: isect_rest.induct)
  case (1 x xs y ys)
  have "\<forall>a\<in>set (isect_rest xs ys). x < a"
    using "1.prems" isect_rest_subset [of xs ys] by auto
  with 1 show ?case by auto
qed simp_all
lemma sorted_diff_rest: "sorted_wrt (<) xs \<Longrightarrow> sorted_wrt (<) (diff_rest xs ys)"
proof (induction xs ys rule: diff_rest.induct)
  case (1 x xs y ys)
  have "\<forall>a\<in>set (diff_rest xs (y # ys)). x < a"
    using "1.prems" diff_rest_subset [of xs "y # ys"] by auto
  with 1 show ?case by auto
qed simp_all

text \<open>
  C3. For strictly ascending lists \<open>A\<close> and \<open>B\<close>, \<open>intersect A B\<close> holds exactly the
  elements of \<open>A \<inter> B\<close>, \<open>union_lists A B\<close> exactly those of \<open>A \<union> B\<close>, and
  \<open>difference A B\<close> exactly those of \<open>A - B\<close>; each output is strictly ascending (so it
  has no duplicates).
\<close>

theorem set_operations_correct:
  assumes "sorted_wrt (<) A" and "sorted_wrt (<) B"
  shows "set (intersect A B) = set A \<inter> set B \<and> sorted_wrt (<) (intersect A B)
       \<and> set (union_lists A B) = set A \<union> set B \<and> sorted_wrt (<) (union_lists A B)
       \<and> set (difference A B) = set A - set B \<and> sorted_wrt (<) (difference A B)"
proof -
  have sB: "sorted B"
    using assms(2) by (simp add: strict_sorted_iff)
  have "set (intersect A B) = set A \<inter> set B"
    using assms by (simp add: intersect_def intersect_loop_rest set_isect_rest)
  moreover have "sorted_wrt (<) (intersect A B)"
    using assms by (simp add: intersect_def intersect_loop_rest sorted_isect_rest)
  moreover have "set (union_lists A B) = set A \<union> set B"
    by (simp add: union_lists_def union_loop_rest set_union_rest)
  moreover have "sorted_wrt (<) (union_lists A B)"
    using assms by (simp add: union_lists_def union_loop_rest sorted_union_rest)
  moreover have "set (difference A B) = set A - set B"
    using assms(1) sB by (simp add: difference_def difference_loop_rest set_diff_rest)
  moreover have "sorted_wrt (<) (difference A B)"
    using assms by (simp add: difference_def difference_loop_rest sorted_diff_rest)
  ultimately show ?thesis by simp
qed

theorem set_operations_correct_witness:
  "sorted_wrt (<) [1, 3, 5 :: int] \<and> sorted_wrt (<) [3, 4, 5, 9 :: int]
   \<and> intersect [1, 3, 5] [3, 4, 5, 9] = [3, 5]
   \<and> union_lists [1, 3, 5] [3, 4, 5, 9] = [1, 3, 4, 5, 9]
   \<and> difference [1, 3, 5] [3, 4, 5, 9] = [1]
   \<and> set (intersect [1, 3, 5] [3, 4, 5, 9]) = set [1, 3, 5] \<inter> set [3, 4, 5, 9]"
proof -
  have h: "sorted_wrt (<) [1, 3, 5 :: int]" "sorted_wrt (<) [3, 4, 5, 9 :: int]"
    by simp_all
  have e: "intersect [1, 3, 5] [3, 4, 5, 9] = [3, 5]"
    "union_lists [1, 3, 5] [3, 4, 5, 9] = [1, 3, 4, 5, 9]"
    "difference [1, 3, 5] [3, 4, 5, 9] = [1]"
    by (simp_all add: intersect_def union_lists_def difference_def
        intersect_loop_rest union_loop_rest difference_loop_rest)
  show ?thesis
    using h e set_operations_correct [OF h] by simp
qed

section \<open>Properties of the evaluator\<close>














lemma stem_ies: "stem ''ies'' = None"
  by code_simp

lemma eval_token_underflow:
  assumes "tok = ''and'' \<or> tok = ''or''" "length stack < 2"
  shows "eval_token e tok stack = Some stack"
  using assms by (auto simp: eval_token_def is_operator_token_def)

lemma eval_loop_defined:
  assumes "\<forall>tok\<in>set rpn_tokens. \<not> is_operator_token tok \<longrightarrow> stem tok \<noteq> None"
  shows "\<exists>stack'. eval_loop e rpn_tokens stack = Some stack'"
  using assms
proof (induction rpn_tokens arbitrary: stack)
  case Nil
  then show ?case by simp
next
  case (Cons tok rpn_tokens)
  have "\<exists>stack1. eval_token e tok stack = Some stack1"
    using Cons.prems by (auto simp: eval_token_def Let_def)
  then obtain stack1 where "eval_token e tok stack = Some stack1" ..
  with Cons show ?case by simp
qed

text \<open>
  C6. \<^verbatim>\<open>eval_rpn\<close> does not return a list for every token sequence: for the term
  \<open>ies\<close> the stemmer reaches \<^verbatim>\<open>step4\<close> with \<open>k_ = 0\<close> and reads \<^verbatim>\<open>word_[k_ - 1]\<close>,
  outside the buffer (\<^verbatim>\<open>step2\<close> guards the same read with \<^verbatim>\<open>if (k_ == 0) return\<close>).
  Where the stemmer is defined on every term, the loop does return
  (\<open>eval_loop_defined\<close>), and \<open>and\<close>/\<open>or\<close> on fewer than two operands leave the stack
  unchanged (\<open>eval_token_underflow\<close>).
\<close>

theorem eval_rpn_stemmer_out_of_bounds:
  "eval_rpn e [''ies''] = None \<and> search_with score e ''ies'' = None"
proof -
  have q: "query_tokens_of ''ies'' = [''ies'']" by code_simp
  have r: "to_rpn [''ies''] = [''ies'']" by code_simp
  have 1: "eval_rpn e [''ies''] = None"
    by (simp add: eval_rpn_def eval_token_def is_operator_token_def stem_ies)
  then have "search_with score e ''ies'' = None"
    by (simp add: search_with_def q r)
  with 1 show ?thesis by simp
qed


section \<open>Properties of the ranking and of the result list\<close>

lemma ranks_before_refl: "ranks_before p p"
  by (simp add: ranks_before_def)

lemma ranks_before_total: "ranks_before p q \<or> ranks_before q p"
  by (auto simp: ranks_before_def)

lemma ranks_before_trans: "ranks_before p q \<Longrightarrow> ranks_before q t \<Longrightarrow> ranks_before p t"
  by (auto simp: ranks_before_def)

lemma better_iff:
  "better ds sc j b \<longleftrightarrow> \<not> ranks_before (ds ! b, sc ! b) (ds ! j, sc ! j)"
  by (auto simp: better_def ranks_before_def)

lemma find_best_props:
  assumes "b < length ds"
  shows "find_best ds sc j b < length ds
       \<and> (find_best ds sc j b = b \<or> j \<le> find_best ds sc j b)
       \<and> ranks_before (ds ! find_best ds sc j b, sc ! find_best ds sc j b) (ds ! b, sc ! b)
       \<and> (\<forall>m. j \<le> m \<and> m < length ds \<longrightarrow>
              ranks_before (ds ! find_best ds sc j b, sc ! find_best ds sc j b) (ds ! m, sc ! m))"
  using assms
proof (induction ds sc j b rule: find_best.induct)
  case (1 ds sc j b)
  show ?case
  proof (cases "j < length ds")
    case False
    then have "find_best ds sc j b = b" by (subst find_best.simps) simp
    with False "1.prems" show ?thesis by (auto simp: ranks_before_refl)
  next
    case True
    define b' where "b' = (if better ds sc j b then j else b)"
    define rr where "rr = find_best ds sc (j + 1) b'"
    have fb: "find_best ds sc j b = rr"
      using True by (subst find_best.simps) (simp add: rr_def b'_def)
    have b'_lt: "b' < length ds" using True "1.prems" by (simp add: b'_def)
    from "1.IH" [OF True] b'_lt
    have ih: "rr < length ds" "rr = b' \<or> j + 1 \<le> rr"
      "ranks_before (ds ! rr, sc ! rr) (ds ! b', sc ! b')"
      "\<forall>m. j + 1 \<le> m \<and> m < length ds \<longrightarrow> ranks_before (ds ! rr, sc ! rr) (ds ! m, sc ! m)"
      unfolding rr_def b'_def by simp_all
    have b'b: "ranks_before (ds ! b', sc ! b') (ds ! b, sc ! b)"
      using ranks_before_total [of "(ds ! b, sc ! b)" "(ds ! j, sc ! j)"]
      by (auto simp: b'_def better_iff ranks_before_refl)
    have b'j: "ranks_before (ds ! b', sc ! b') (ds ! j, sc ! j)"
      by (auto simp: b'_def better_iff ranks_before_refl)
    have rb: "ranks_before (ds ! rr, sc ! rr) (ds ! b, sc ! b)"
      using ih(3) b'b by (rule ranks_before_trans)
    have rj: "ranks_before (ds ! rr, sc ! rr) (ds ! j, sc ! j)"
      using ih(3) b'j by (rule ranks_before_trans)
    have all: "\<forall>m. j \<le> m \<and> m < length ds \<longrightarrow> ranks_before (ds ! rr, sc ! rr) (ds ! m, sc ! m)"
    proof (intro allI impI)
      fix m assume m: "j \<le> m \<and> m < length ds"
      show "ranks_before (ds ! rr, sc ! rr) (ds ! m, sc ! m)"
      proof (cases "m = j")
        case True with rj show ?thesis by simp
      next
        case False with m ih(4) show ?thesis by simp
      qed
    qed
    have pos: "rr = b \<or> j \<le> rr" using ih(2) by (auto simp: b'_def split: if_splits)
    from ih(1) pos rb all show ?thesis unfolding fb by simp
  qed
qed


lemma rank_loop_sorted:
  assumes "length sc = length ds" "i \<le> length ds"
    and "sorted_wrt ranks_before (take i (zip ds sc))"
    and "\<forall>a m. a < i \<and> i \<le> m \<and> m < length ds \<longrightarrow> ranks_before (ds ! a, sc ! a) (ds ! m, sc ! m)"
  shows "length (fst (rank_loop ds sc i)) = length ds
       \<and> length (snd (rank_loop ds sc i)) = length ds
       \<and> mset (zip (fst (rank_loop ds sc i)) (snd (rank_loop ds sc i))) = mset (zip ds sc)
       \<and> sorted_wrt ranks_before (zip (fst (rank_loop ds sc i)) (snd (rank_loop ds sc i)))"
  using assms
proof (induction ds sc i rule: rank_loop.induct)
  case (1 ds sc i)
  note len = "1.prems"(1)
  show ?case
  proof (cases "i < length ds")
    case False
    then have "rank_loop ds sc i = (ds, sc)" by (subst rank_loop.simps) simp
    moreover from False "1.prems"(2) have "i = length ds" by simp
    ultimately show ?thesis using "1.prems"(1,3) by simp
  next
    case True
    define b where "b = find_best ds sc (i + 1) i"
    define ds1 where "ds1 = ds[i := ds ! b, b := ds ! i]"
    define sc1 where "sc1 = sc[i := sc ! b, b := sc ! i]"
    from find_best_props [OF True, of sc "i + 1"]
    have fb: "b < length ds" "b = i \<or> i + 1 \<le> b"
      "ranks_before (ds ! b, sc ! b) (ds ! i, sc ! i)"
      "\<forall>m. i + 1 \<le> m \<and> m < length ds \<longrightarrow> ranks_before (ds ! b, sc ! b) (ds ! m, sc ! m)"
      unfolding b_def by simp_all
    have b12: "b < length ds" "i \<le> b" using fb(1,2) by auto
    have b3: "\<forall>m. i \<le> m \<and> m < length ds \<longrightarrow> ranks_before (ds ! b, sc ! b) (ds ! m, sc ! m)"
    proof (intro allI impI)
      fix m assume m: "i \<le> m \<and> m < length ds"
      show "ranks_before (ds ! b, sc ! b) (ds ! m, sc ! m)"
      proof (cases "m = i")
        case True with fb(3) show ?thesis by simp
      next
        case False
        with m have "i + 1 \<le> m \<and> m < length ds" by simp
        with fb(4) show ?thesis by blast
      qed
    qed
    note b = b12 b3
    have step: "rank_loop ds sc i = rank_loop ds1 sc1 (i + 1)"
    proof (cases "b = i")
      case True
      then have "ds1 = ds" "sc1 = sc" by (simp_all add: ds1_def sc1_def)
      then show ?thesis
        using \<open>i < length ds\<close> True by (subst rank_loop.simps) (simp add: b_def)
    next
      case False
      then show ?thesis
        using \<open>i < length ds\<close>
        by (subst rank_loop.simps) (simp add: b_def ds1_def sc1_def Let_def)
    qed
    have len1: "length sc1 = length ds1" "length ds1 = length ds"
      using len by (simp_all add: ds1_def sc1_def)
    have nth1: "\<And>m. m < length ds \<Longrightarrow>
        (ds1 ! m, sc1 ! m) = (if m = b then (ds ! i, sc ! i) else if m = i then (ds ! b, sc ! b) else (ds ! m, sc ! m))"
      using len b(1) True by (auto simp: ds1_def sc1_def nth_list_update)
    have zip1: "zip ds1 sc1 = (zip ds sc)[i := zip ds sc ! b, b := zip ds sc ! i]"
      using len b(1) True by (simp add: ds1_def sc1_def update_zip)
    have mset1: "mset (zip ds1 sc1) = mset (zip ds sc)"
      unfolding zip1 by (rule mset_swap) (use len b(1) True in simp_all)
    have take1: "take (i + 1) (zip ds1 sc1) = take i (zip ds sc) @ [(ds ! b, sc ! b)]"
    proof -
      have "take (Suc i) (zip ds1 sc1) = take i (zip ds1 sc1) @ [zip ds1 sc1 ! i]"
        using True len1 by (simp add: take_Suc_conv_app_nth)
      moreover have "take i (zip ds1 sc1) = take i (zip ds sc)"
        unfolding zip1 using b(2) by simp
      moreover have "zip ds1 sc1 ! i = (ds ! b, sc ! b)"
        using nth1 [OF True] True len1 by (auto split: if_splits)
      ultimately show ?thesis by simp
    qed
    have pre: "\<forall>x\<in>set (take i (zip ds sc)). ranks_before x (ds ! b, sc ! b)"
    proof
      fix x assume "x \<in> set (take i (zip ds sc))"
      then obtain a where a: "a < i" "x = zip ds sc ! a"
        using True len by (auto simp: in_set_conv_nth)
      then have "x = (ds ! a, sc ! a)" using True len by simp
      with a(1) b(1,2) "1.prems"(4) show "ranks_before x (ds ! b, sc ! b)" by simp
    qed
    have sorted1: "sorted_wrt ranks_before (take (i + 1) (zip ds1 sc1))"
      unfolding take1 using "1.prems"(3) pre by (simp add: sorted_wrt_append)
    have inv1: "\<forall>a m. a < i + 1 \<and> i + 1 \<le> m \<and> m < length ds1 \<longrightarrow>
                  ranks_before (ds1 ! a, sc1 ! a) (ds1 ! m, sc1 ! m)"
    proof (intro allI impI)
      fix a m assume am: "a < i + 1 \<and> i + 1 \<le> m \<and> m < length ds1"
      then have m: "i < m" "m < length ds" using len1 by simp_all
      have "\<exists>m'. i \<le> m' \<and> m' < length ds \<and> (ds1 ! m, sc1 ! m) = (ds ! m', sc ! m')"
      proof (cases "m = b")
        case True
        with nth1 [OF m(2)] \<open>i < length ds\<close> show ?thesis by auto
      next
        case False
        with nth1 [OF m(2)] m show ?thesis by (intro exI [of _ m]) auto
      qed
      then obtain m' where m': "i \<le> m'" "m' < length ds" "(ds1 ! m, sc1 ! m) = (ds ! m', sc ! m')"
        by blast
      show "ranks_before (ds1 ! a, sc1 ! a) (ds1 ! m, sc1 ! m)"
      proof (cases "a = i")
        case True
        then have "(ds1 ! a, sc1 ! a) = (ds ! b, sc ! b)"
          using nth1 [of i] \<open>i < length ds\<close> by (auto split: if_splits)
        with b(3) m' show ?thesis by simp
      next
        case False
        with am have a: "a < i" by simp
        then have "(ds1 ! a, sc1 ! a) = (ds ! a, sc ! a)"
          using nth1 [of a] b(2) \<open>i < length ds\<close> by auto
        with a m' "1.prems"(4) show ?thesis by simp
      qed
    qed
    have le1: "i + 1 \<le> length ds1" using True len1 by simp
    have ih: "length (fst (rank_loop ds1 sc1 (i + 1))) = length ds1
       \<and> length (snd (rank_loop ds1 sc1 (i + 1))) = length ds1
       \<and> mset (zip (fst (rank_loop ds1 sc1 (i + 1))) (snd (rank_loop ds1 sc1 (i + 1)))) = mset (zip ds1 sc1)
       \<and> sorted_wrt ranks_before (zip (fst (rank_loop ds1 sc1 (i + 1))) (snd (rank_loop ds1 sc1 (i + 1))))"
    proof (cases "b = i")
      case True
      then have e: "ds1 = ds" "sc1 = sc" by (simp_all add: ds1_def sc1_def)
      have "find_best ds sc (i + 1) i = i" using True by (simp add: b_def)
      from "1.IH"(2) [OF \<open>i < length ds\<close> refl _ len] this sorted1 inv1 le1
      show ?thesis unfolding e by simp
    next
      case False
      have "find_best ds sc (i + 1) i \<noteq> i" using False by (simp add: b_def)
      from "1.IH"(1) [OF \<open>i < length ds\<close> refl this] len1 sorted1 inv1 le1
      show ?thesis unfolding ds1_def sc1_def b_def by simp
    qed
    show ?thesis
      unfolding step using ih mset1 len1 by simp
  qed
qed


lemma rank_loop_by_score:
  "mset (fst (rank_loop ds (map f ds) 0)) = mset ds
   \<and> sorted_wrt (\<lambda>a b. f a > f b \<or> (f a = f b \<and> a \<le> b)) (fst (rank_loop ds (map f ds) 0))"
proof -
  define ds' where "ds' = fst (rank_loop ds (map f ds) 0)"
  define sc' where "sc' = snd (rank_loop ds (map f ds) 0)"
  have "length (map f ds) = length ds" "0 \<le> length ds"
    "sorted_wrt ranks_before (take 0 (zip ds (map f ds)))"
    "\<forall>a m. a < 0 \<and> 0 \<le> m \<and> m < length ds \<longrightarrow>
       ranks_before (ds ! a, map f ds ! a) (ds ! m, map f ds ! m)"
    by simp_all
  from rank_loop_sorted [OF this]
  have r: "length ds' = length ds" "length sc' = length ds"
    "mset (zip ds' sc') = mset (zip ds (map f ds))"
    "sorted_wrt ranks_before (zip ds' sc')"
    unfolding ds'_def sc'_def by simp_all
  have "mset (map fst (zip ds' sc')) = mset (map fst (zip ds (map f ds)))"
    using r(3) by (metis mset_map)
  then have m: "mset ds' = mset ds" using r(1,2) by simp
  have "set (zip ds' sc') = set (zip ds (map f ds))"
    using r(3) by (rule mset_eq_setD)
  then have "\<forall>p\<in>set (zip ds' sc'). snd p = f (fst p)"
    by (auto simp: zip_map2 zip_same_conv_map)
  then have "\<forall>k<length ds'. sc' ! k = f (ds' ! k)"
    using r(1,2) by (auto simp: set_zip)
  then have sc: "sc' = map f ds'"
    using r(1,2) by (intro nth_equalityI) simp_all
  have "zip ds' (map f ds') = map (\<lambda>d. (d, f d)) ds'"
    by (simp add: zip_map2 zip_same_conv_map)
  with r(4) sc have "sorted_wrt ranks_before (map (\<lambda>d. (d, f d)) ds')" by simp
  then have "sorted_wrt (\<lambda>a b. f a > f b \<or> (f a = f b \<and> a \<le> b)) ds'"
    by (simp add: sorted_wrt_map ranks_before_def)
  with m show ?thesis unfolding ds'_def by simp
qed

lemma collect_results_filter:
  "collect_results e ds acc = Some rs \<Longrightarrow>
   rs = acc @ map (\<lambda>d. \<lparr>res_doc_id = d, res_url = doc_urls e ! nat d, res_title = doc_titles e ! nat d\<rparr>)
                (filter (\<lambda>d. 0 \<le> d \<and> d < int (length (doc_urls e))) ds)"
proof (induction ds arbitrary: acc)
  case Nil
  then show ?case by simp
next
  case (Cons d ds)
  show ?case
  proof (cases "d \<ge> 0 \<and> nat d < length (doc_urls e)")
    case True
    with Cons.prems have t: "nat d < length (doc_titles e)"
      by (auto split: if_splits)
    with True Cons.prems have "collect_results e ds
        (acc @ [\<lparr>res_doc_id = d, res_url = doc_urls e ! nat d, res_title = doc_titles e ! nat d\<rparr>]) = Some rs"
      by simp
    from Cons.IH [OF this] True show ?thesis by auto
  next
    case False
    with Cons.prems have "collect_results e ds acc = Some rs" by auto
    from Cons.IH [OF this] False show ?thesis by auto
  qed
qed

lemma search_with_Some:
  assumes "search_with score e query = Some (results, total_matches)"
  shows "\<exists>candidates query_terms.
      (if query_tokens_of query = [] then candidates = []
       else eval_rpn e (to_rpn (query_tokens_of query)) = Some candidates
          \<and> extract_query_terms (query_tokens_of query) = Some query_terms)
    \<and> total_matches = length candidates
    \<and> collect_results e
          (take 100 (fst (rank_loop candidates (map (\<lambda>d. score d query_terms) candidates) 0))) [] = Some results"
proof (cases "query_tokens_of query = []")
  case True
  with assms have "results = []" "total_matches = 0" by (simp_all add: search_with_def)
  with True show ?thesis
    by (intro exI [of _ "[]"]) (simp add: rank_loop.simps)
next
  case False
  with assms obtain candidates query_terms where
    c: "eval_rpn e (to_rpn (query_tokens_of query)) = Some candidates"
    and q: "extract_query_terms (query_tokens_of query) = Some query_terms"
    and r: "collect_results e
          (take 100 (fst (rank_loop candidates (map (\<lambda>d. score d query_terms) candidates) 0))) [] = Some results"
    and t: "total_matches = length candidates"
    by (auto simp: search_with_def Let_def split: Option.bind_splits)
  with False show ?thesis by auto
qed

text \<open>
  C7. Whenever \<open>search\<close> returns, the candidates of the boolean evaluation are ordered
  by score descending and, among equal scores, by \<open>doc_id\<close> ascending; the results are
  taken from the first 100 of that order, so there are at most 100; and the total is the
  number of candidates before truncation. This holds for every scoring function.
\<close>

theorem search_ranking:
  assumes "search_with score e query = Some (results, total_matches)"
  shows "\<exists>candidates query_terms ranked.
      (if query_tokens_of query = [] then candidates = []
       else eval_rpn e (to_rpn (query_tokens_of query)) = Some candidates
          \<and> extract_query_terms (query_tokens_of query) = Some query_terms)
    \<and> total_matches = length candidates
    \<and> mset ranked = mset candidates
    \<and> sorted_wrt (\<lambda>a b. score a query_terms > score b query_terms
                       \<or> (score a query_terms = score b query_terms \<and> a \<le> b)) ranked
    \<and> map res_doc_id results = filter (\<lambda>d. 0 \<le> d \<and> d < int (length (doc_urls e))) (take 100 ranked)
    \<and> length results \<le> 100"
proof -
  from search_with_Some [OF assms] obtain candidates query_terms where
    c: "if query_tokens_of query = [] then candidates = []
        else eval_rpn e (to_rpn (query_tokens_of query)) = Some candidates
           \<and> extract_query_terms (query_tokens_of query) = Some query_terms"
    and t: "total_matches = length candidates"
    and r: "collect_results e
          (take 100 (fst (rank_loop candidates (map (\<lambda>d. score d query_terms) candidates) 0))) [] = Some results"
    by blast
  define ranked where "ranked = fst (rank_loop candidates (map (\<lambda>d. score d query_terms) candidates) 0)"
  from rank_loop_by_score [of candidates "\<lambda>d. score d query_terms"]
  have s: "mset ranked = mset candidates"
    "sorted_wrt (\<lambda>a b. score a query_terms > score b query_terms
                       \<or> (score a query_terms = score b query_terms \<and> a \<le> b)) ranked"
    unfolding ranked_def by simp_all
  from collect_results_filter [OF r]
  have m: "map res_doc_id results = filter (\<lambda>d. 0 \<le> d \<and> d < int (length (doc_urls e))) (take 100 ranked)"
    unfolding ranked_def by (simp add: comp_def)
  have "length (map res_doc_id results) \<le> length (take 100 ranked)"
    unfolding m by (rule length_filter_le)
  then have l: "length results \<le> 100" by simp
  from c t s m l show ?thesis by blast
qed

theorem search_ranking_witness:
  "search_with example_score example_engine ''Vault OR nuka''
     = Some ([\<lparr>res_doc_id = 2, res_url = ''u2'', res_title = ''Raiders''\<rparr>,
              \<lparr>res_doc_id = 0, res_url = ''u0'', res_title = ''Vault''\<rparr>,
              \<lparr>res_doc_id = 1, res_url = ''u1'', res_title = ''Nuka''\<rparr>], 3)
   \<and> (\<exists>candidates query_terms ranked.
      (if query_tokens_of ''Vault OR nuka'' = [] then candidates = []
       else eval_rpn example_engine (to_rpn (query_tokens_of ''Vault OR nuka'')) = Some candidates
          \<and> extract_query_terms (query_tokens_of ''Vault OR nuka'') = Some query_terms)
    \<and> (3 :: nat) = length candidates
    \<and> mset ranked = mset candidates
    \<and> sorted_wrt (\<lambda>a b. example_score a query_terms > example_score b query_terms
                       \<or> (example_score a query_terms = example_score b query_terms \<and> a \<le> b)) ranked
    \<and> map res_doc_id
          [\<lparr>res_doc_id = 2, res_url = ''u2'', res_title = ''Raiders''\<rparr>,
           \<lparr>res_doc_id = 0, res_url = ''u0'', res_title = ''Vault''\<rparr>,
           \<lparr>res_doc_id = 1, res_url = ''u1'', res_title = ''Nuka''\<rparr>]
        = filter (\<lambda>d. 0 \<le> d \<and> d < int (length (doc_urls example_engine))) (take 100 ranked)
    \<and> length
          [\<lparr>res_doc_id = 2, res_url = ''u2'', res_title = ''Raiders''\<rparr>,
           \<lparr>res_doc_id = 0, res_url = ''u0'', res_title = ''Vault''\<rparr>,
           \<lparr>res_doc_id = 1, res_url = ''u1'', res_title = ''Nuka''\<rparr>] \<le> 100)"
proof -
  have s: "search_with example_score example_engine ''Vault OR nuka''
     = Some ([\<lparr>res_doc_id = 2, res_url = ''u2'', res_title = ''Raiders''\<rparr>,
              \<lparr>res_doc_id = 0, res_url = ''u0'', res_title = ''Vault''\<rparr>,
              \<lparr>res_doc_id = 1, res_url = ''u1'', res_title = ''Nuka''\<rparr>], 3)"
    by code_simp
  from s search_ranking [OF s] show ?thesis by (intro conjI)
qed

text \<open>
  C10. Whenever \<open>search\<close> returns, every result has \<open>0 \<le> doc_id < \<close> the number of
  document slots and carries the stored URL and title of that slot, whatever doc ids the
  posting lists name; the total counts every candidate of the boolean evaluation, also
  those outside that range, which are never among the results.
\<close>

theorem search_results_in_range:
  assumes "search_with score e query = Some (results, total_matches)"
  shows "(\<forall>r\<in>set results.
            0 \<le> res_doc_id r \<and> res_doc_id r < int (length (doc_urls e))
            \<and> res_url r = doc_urls e ! nat (res_doc_id r)
            \<and> res_title r = doc_titles e ! nat (res_doc_id r))
       \<and> (\<exists>candidates.
            (if query_tokens_of query = [] then candidates = []
             else eval_rpn e (to_rpn (query_tokens_of query)) = Some candidates)
            \<and> total_matches = length candidates
            \<and> set (map res_doc_id results)
                \<subseteq> {d \<in> set candidates. 0 \<le> d \<and> d < int (length (doc_urls e))})"
proof -
  from search_with_Some [OF assms] obtain candidates query_terms where
    c: "if query_tokens_of query = [] then candidates = []
        else eval_rpn e (to_rpn (query_tokens_of query)) = Some candidates
           \<and> extract_query_terms (query_tokens_of query) = Some query_terms"
    and t: "total_matches = length candidates"
    and r: "collect_results e
          (take 100 (fst (rank_loop candidates (map (\<lambda>d. score d query_terms) candidates) 0))) [] = Some results"
    by blast
  define ranked where "ranked = fst (rank_loop candidates (map (\<lambda>d. score d query_terms) candidates) 0)"
  from collect_results_filter [OF r]
  have rs: "results = map (\<lambda>d. \<lparr>res_doc_id = d, res_url = doc_urls e ! nat d, res_title = doc_titles e ! nat d\<rparr>)
                (filter (\<lambda>d. 0 \<le> d \<and> d < int (length (doc_urls e))) (take 100 ranked))"
    unfolding ranked_def by simp
  have 1: "\<forall>r\<in>set results.
            0 \<le> res_doc_id r \<and> res_doc_id r < int (length (doc_urls e))
            \<and> res_url r = doc_urls e ! nat (res_doc_id r)
            \<and> res_title r = doc_titles e ! nat (res_doc_id r)"
    unfolding rs by auto
  from rank_loop_by_score [of candidates "\<lambda>d. score d query_terms"]
  have "set ranked = set candidates"
    unfolding ranked_def by (metis mset_eq_setD)
  then have 2: "set (map res_doc_id results)
                \<subseteq> {d \<in> set candidates. 0 \<le> d \<and> d < int (length (doc_urls e))}"
    unfolding rs by (auto simp: comp_def dest: in_set_takeD)
  from c have c': "if query_tokens_of query = [] then candidates = []
             else eval_rpn e (to_rpn (query_tokens_of query)) = Some candidates"
    by (simp split: if_splits)
  from 1 2 c' t show ?thesis by blast
qed


theorem search_results_in_range_witness:
  "search_with example_score example_engine ''lost''
     = Some ([\<lparr>res_doc_id = 1, res_url = ''u1'', res_title = ''Nuka''\<rparr>], 3)
   \<and> eval_rpn example_engine (to_rpn (query_tokens_of ''lost'')) = Some [7, - 3, 1]
   \<and> length (doc_urls example_engine) = 5
   \<and> doc_urls example_engine ! 1 = ''u1'' \<and> doc_titles example_engine ! 1 = ''Nuka''"
proof -
  have s: "search_with example_score example_engine ''lost''
     = Some ([\<lparr>res_doc_id = 1, res_url = ''u1'', res_title = ''Nuka''\<rparr>], 3)"
    by code_simp
  have c: "eval_rpn example_engine (to_rpn (query_tokens_of ''lost'')) = Some [7, - 3, 1]"
    by code_simp
  have l: "length (doc_urls example_engine) = 5"
    by (simp add: example_engine_def)
  from s c l search_results_in_range [OF s] show ?thesis by simp
qed

section \<open>Properties of the analysis paths\<close>

lemma of_char_apostrophe: "(of_char (CHR 0x27) :: nat) = 39"
  by simp

lemma alpha_not_space: "is_alpha c \<Longrightarrow> \<not> is_space c"
  by (auto simp: is_alpha_def is_upper_def is_lower_def is_space_def)

lemma apostrophe_not_space: "\<not> is_space (CHR 0x27)"
  by (simp add: is_space_def)

lemma apostrophe_not_alpha: "\<not> is_alpha (CHR 0x27)"
  by (simp add: is_alpha_def is_upper_def is_lower_def)




lemma extract_tokens_nonempty: "[] \<notin> set (extract_tokens s token)"
  by (induction s arbitrary: token) auto







lemma to_lower_char_alpha: "is_alpha c \<Longrightarrow> is_alpha (to_lower_char c)"
proof (cases "is_upper c")
  case True
  then have "of_char c + (32::nat) < 256" by (simp add: is_upper_def)
  then have "(of_char (char_of (of_char c + (32::nat))) :: nat) = of_char c + 32"
    by (simp add: of_char_of)
  with True show ?thesis
    by (simp add: to_lower_char_def is_alpha_def is_upper_def is_lower_def)
next
  case False
  assume "is_alpha c"
  with False show ?thesis by (simp add: to_lower_char_def)
qed

lemma to_lower_char_keep:
  "is_alpha c \<or> c = CHR 0x27 \<Longrightarrow> keep_char (to_lower_char c)"
proof (cases "is_alpha c")
  case True
  then show ?thesis by (simp add: keep_char_def is_alnum_def to_lower_char_alpha)
next
  case False
  assume "is_alpha c \<or> c = CHR 0x27"
  with False have "c = CHR 0x27" by simp
  then show ?thesis by (simp add: keep_char_def to_lower_char_def is_upper_def)
qed










section \<open>Properties of the index builder\<close>

lemma hm_insert_keys: "fst ` set (hm_insert k v m) = insert k (fst ` set m)"
  by (induction k v m rule: hm_insert.induct) auto

lemma hm_insert_distinct: "distinct (map fst m) \<Longrightarrow> distinct (map fst (hm_insert k v m))"
proof (induction k v m rule: hm_insert.induct)
  case (1 key val)
  then show ?case by simp
next
  case (2 key val k v m)
  then show ?case
    using hm_insert_keys [of key val m] by (auto simp: image_iff)
qed

lemma hm_find_insert: "hm_find (hm_insert k v m) = (hm_find m)(k \<mapsto> v)"
  by (induction k v m rule: hm_insert.induct) (auto simp: hm_find_def fun_eq_iff)

lemma hm_insert_set_weak:
  "(t, x) \<in> set (hm_insert k v m) \<Longrightarrow> (t = k \<and> x = v) \<or> (t, x) \<in> set m"
  by (induction k v m rule: hm_insert.induct) (auto split: if_splits)

lemma hm_insert_set:
  "distinct (map fst m) \<Longrightarrow> (t, x) \<in> set (hm_insert k v m)
   \<Longrightarrow> (t = k \<and> x = v) \<or> ((t, x) \<in> set m \<and> t \<noteq> k)"
  by (induction k v m rule: hm_insert.induct) (auto split: if_splits simp: image_iff)

lemma hm_find_Some_set: "hm_find m k = Some v \<Longrightarrow> (k, v) \<in> set m"
  by (simp add: hm_find_def map_of_SomeD)

lemma count_terms_inv:
  assumes "count_terms tokens term_freqs = Inr result"
    and "distinct (map fst term_freqs)" "\<forall>(s, n)\<in>set term_freqs. n \<ge> 1"
  shows "distinct (map fst result) \<and> (\<forall>(s, n)\<in>set result. n \<ge> 1)"
  using assms
proof (induction tokens arbitrary: term_freqs)
  case Nil
  then show ?case by simp
next
  case (Cons token tokens)
  from Cons.prems(1) obtain stemmed where st: "stem token = Some stemmed"
    by (auto split: option.splits)
  show ?case
  proof (cases "stemmed = []")
    case True
    with Cons st show ?thesis by simp
  next
    case False
    define v where "v = (case hm_find term_freqs stemmed of Some current_tf \<Rightarrow> current_tf + 1 | None \<Rightarrow> 1)"
    have step: "count_terms tokens (hm_insert stemmed v term_freqs) = Inr result"
      using Cons.prems(1) st False by (auto simp: v_def split: option.splits)
    have "v \<ge> 1"
    proof (cases "hm_find term_freqs stemmed")
      case None
      then show ?thesis by (simp add: v_def)
    next
      case (Some current_tf)
      then have "(stemmed, current_tf) \<in> set term_freqs" by (rule hm_find_Some_set)
      with Cons.prems(3) have "current_tf \<ge> 1" by auto
      with Some show ?thesis by (simp add: v_def)
    qed
    then have "\<forall>(s, n)\<in>set (hm_insert stemmed v term_freqs). n \<ge> 1"
      using Cons.prems(3) by (auto dest: hm_insert_set_weak)
    with Cons.IH [OF step hm_insert_distinct [OF Cons.prems(2)]] show ?thesis by simp
  qed
qed


lemma postings_ok_mono: "postings_ok m pl \<Longrightarrow> m \<le> m' \<Longrightarrow> postings_ok m' pl"
  by (auto simp: postings_ok_def list_all_iff)

lemma postings_ok_append:
  "postings_ok d pl \<Longrightarrow> n \<ge> 1 \<Longrightarrow> postings_ok (d + 1) (pl @ [TermPosting d n])"
  by (auto simp: postings_ok_def list_all_iff sorted_wrt_append)

lemma postings_ok_Nil: "postings_ok d []"
  by (simp add: postings_ok_def)

lemma append_postings_inv:
  assumes "distinct (map fst term_freqs)" "\<forall>(s, n)\<in>set term_freqs. n \<ge> 1"
    and "distinct (map fst index)"
    and "\<forall>(t, pl)\<in>set index. postings_ok (d + 1) pl \<and> (t \<in> fst ` set term_freqs \<longrightarrow> postings_ok d pl)"
  shows "distinct (map fst (append_postings d term_freqs index))
       \<and> (\<forall>(t, pl)\<in>set (append_postings d term_freqs index). postings_ok (d + 1) pl)"
  using assms
proof (induction term_freqs arbitrary: index)
  case Nil
  then show ?case by auto
next
  case (Cons a term_freqs)
  obtain s n where a: "a = (s, n)" by (cases a)
  define old where "old = (case hm_find index s of Some posting_list \<Rightarrow> posting_list | None \<Rightarrow> [])"
  define index' where "index' = hm_insert s (old @ [TermPosting d n]) index"
  have step: "append_postings d (a # term_freqs) index = append_postings d term_freqs index'"
    by (simp add: a index'_def old_def split: option.splits)
  have n: "n \<ge> 1" using Cons.prems(2) by (simp add: a)
  have old_ok: "postings_ok d old"
  proof (cases "hm_find index s")
    case None
    then show ?thesis by (simp add: old_def postings_ok_Nil)
  next
    case (Some posting_list)
    then have "(s, posting_list) \<in> set index" by (rule hm_find_Some_set)
    with Cons.prems(4) have "postings_ok d posting_list" by (auto simp: a)
    with Some show ?thesis by (simp add: old_def)
  qed
  have new_ok: "postings_ok (d + 1) (old @ [TermPosting d n])"
    using old_ok n by (rule postings_ok_append)
  have s_notin: "s \<notin> fst ` set term_freqs" using Cons.prems(1) by (simp add: a)
  have 1: "distinct (map fst term_freqs)" using Cons.prems(1) by simp
  have 2: "\<forall>(s, n)\<in>set term_freqs. n \<ge> 1" using Cons.prems(2) by simp
  have 3: "distinct (map fst index')"
    unfolding index'_def using Cons.prems(3) by (rule hm_insert_distinct)
  have 4: "\<forall>(t, pl)\<in>set index'. postings_ok (d + 1) pl \<and> (t \<in> fst ` set term_freqs \<longrightarrow> postings_ok d pl)"
  proof (intro ballI, clarify)
    fix t pl assume "(t, pl) \<in> set index'"
    then have "(t = s \<and> pl = old @ [TermPosting d n]) \<or> ((t, pl) \<in> set index \<and> t \<noteq> s)"
      unfolding index'_def using hm_insert_set [OF Cons.prems(3)] by blast
    then show "postings_ok (d + 1) pl \<and> (t \<in> fst ` set term_freqs \<longrightarrow> postings_ok d pl)"
    proof
      assume "t = s \<and> pl = old @ [TermPosting d n]"
      with new_ok s_notin show ?thesis by simp
    next
      assume "(t, pl) \<in> set index \<and> t \<noteq> s"
      with Cons.prems(4) show ?thesis by (auto simp: a)
    qed
  qed
  from Cons.IH [OF 1 2 3 4] show ?case unfolding step .
qed

lemma grow_index: "b_inverted_index (grow b n) = b_inverted_index b"
proof (induction b n rule: grow.induct)
  case (1 b doc_id)
  then show ?case by (subst grow.simps) simp
qed

lemma count_terms_from_empty:
  assumes "count_terms tokens [] = Inr term_freqs"
  shows "distinct (map fst term_freqs) \<and> (\<forall>(s, n)\<in>set term_freqs. n \<ge> 1)"
  using count_terms_inv [OF assms] by simp

lemma add_document_inv:
  assumes "add_document b d url title text = Inr b'" "builder_ok m b" "m \<le> d"
  shows "builder_ok (d + 1) b'"
proof -
  from assms(1) obtain term_freqs where
    c: "count_terms (tokenize text) [] = Inr term_freqs"
    and b': "b_inverted_index b' = append_postings d term_freqs (b_inverted_index b)"
    by (auto simp: add_document_def Let_def grow_index split: if_splits sum.splits)
  from count_terms_from_empty [OF c]
  have tf: "distinct (map fst term_freqs)" "\<forall>(s, n)\<in>set term_freqs. n \<ge> 1" by simp_all
  from assms(2) have di: "distinct (map fst (b_inverted_index b))"
    and ok: "\<forall>(t, pl)\<in>set (b_inverted_index b). postings_ok m pl"
    by (auto simp: builder_ok_def list_all_iff)
  have "\<forall>(t, pl)\<in>set (b_inverted_index b).
          postings_ok (d + 1) pl \<and> (t \<in> fst ` set term_freqs \<longrightarrow> postings_ok d pl)"
    using ok assms(3) by (auto intro: postings_ok_mono)
  from append_postings_inv [OF tf di this] show ?thesis
    by (auto simp: builder_ok_def b' list_all_iff)
qed

lemma add_documents_inv:
  assumes "add_documents docs b = Inr b'" "builder_ok m b"
    and "sorted_wrt (<) (map fst docs)" "\<forall>d\<in>set (map fst docs). m \<le> d"
  shows "\<exists>m'. builder_ok m' b'"
  using assms
proof (induction docs arbitrary: b m)
  case Nil
  then show ?case by auto
next
  case (Cons doc docs)
  obtain d url title body where doc: "doc = (d, url, title, body)" by (cases doc)
  from Cons.prems(1) obtain b1 where
    a: "add_document b d url title body = Inr b1" and r: "add_documents docs b1 = Inr b'"
    by (auto simp: doc split: sum.splits)
  have "m \<le> d" using Cons.prems(4) by (simp add: doc)
  from add_document_inv [OF a Cons.prems(2) this] have 1: "builder_ok (d + 1) b1" .
  have 2: "sorted_wrt (<) (map fst docs)" using Cons.prems(3) by simp
  have 3: "\<forall>x\<in>set (map fst docs). d + 1 \<le> x" using Cons.prems(3) by (auto simp: doc)
  from Cons.IH [OF r 1 2 3] show ?case .
qed

lemma save_terms_cells:
  "save_terms entries term_id = Inr (vocab, cells) \<Longrightarrow>
   cells = concat (map (\<lambda>(term, posting_list). posting_cells posting_list) entries)"
  by (induction entries term_id arbitrary: vocab cells rule: save_terms.induct)
     (auto split: if_splits sum.splits prod.splits)

text \<open>
  C2 (as amended). If \<^verbatim>\<open>add_document\<close> is called with strictly increasing doc ids,
  then \<^verbatim>\<open>save_index\<close> writes to \<^verbatim>\<open>index.bin\<close> the posting lists of the index, one
  size-prefixed record after the other, and each of them is strictly ascending by
  \<open>doc_id\<close> with every \<open>tf\<close> at least 1.
\<close>

theorem saved_postings_ascending:
  assumes "add_documents docs new_builder = Inr b"
    and "sorted_wrt (<) (map fst docs)"
    and "save_index b = Inr files"
  shows "index_bin files = concat (map (\<lambda>(term, posting_list). posting_cells posting_list) (b_inverted_index b))
       \<and> list_all (\<lambda>(term, posting_list).
             sorted_wrt (<) (map tp_doc_id posting_list)
             \<and> list_all (\<lambda>p. tp_tf p \<ge> 1) posting_list) (b_inverted_index b)"
proof -
  have nb: "\<And>m. builder_ok m new_builder"
    by (simp add: builder_ok_def new_builder_def)
  have "\<exists>m'. builder_ok m' b"
  proof (cases docs)
    case Nil
    with assms(1) nb show ?thesis by auto
  next
    case (Cons doc rest)
    then have "\<forall>d\<in>set (map fst docs). fst doc \<le> d"
      using assms(2) by auto
    from add_documents_inv [OF assms(1) nb assms(2) this] show ?thesis .
  qed
  then obtain m' where "builder_ok m' b" ..
  then have 2: "list_all (\<lambda>(term, posting_list).
             sorted_wrt (<) (map tp_doc_id posting_list)
             \<and> list_all (\<lambda>p. tp_tf p \<ge> 1) posting_list) (b_inverted_index b)"
    by (auto simp: builder_ok_def postings_ok_def list_all_iff)
  from assms(3) obtain vocab where "save_terms (b_inverted_index b) 0 = Inr (vocab, index_bin files)"
    by (auto simp: save_index_def split: prod.splits sum.splits)
  from save_terms_cells [OF this] 2 show ?thesis by simp
qed

theorem saved_postings_ascending_witness:
  "add_documents in_order_docs new_builder
     = Inr \<lparr>b_inverted_index = [(''vault'', [TermPosting 0 2, TermPosting 2 1])],
            b_doc_urls = [''u0'', [], ''u2''], b_doc_titles = [''t0'', [], ''t2''],
            b_doc_lengths = [2, 0, 1]\<rparr>
   \<and> sorted_wrt (<) (map fst in_order_docs)
   \<and> map_sum id index_bin (build_and_save in_order_docs) = Inr [2, 0, 2, 2, 1]"
proof -
  let ?b = "\<lparr>b_inverted_index = [(''vault'', [TermPosting 0 2, TermPosting 2 1])],
            b_doc_urls = [''u0'', [], ''u2''], b_doc_titles = [''t0'', [], ''t2''],
            b_doc_lengths = [2, 0, 1]\<rparr>"
  let ?f = "\<lparr>vocabulary_txt = ''0 vault 2'' @ [CHR 0x0A], index_bin = [2, 0, 2, 2, 1],
            documents_txt = ''0'' @ [CHR 0x09] @ ''u0'' @ [CHR 0x09] @ ''t0'' @ [CHR 0x0A]
               @ ''1'' @ [CHR 0x09, CHR 0x09, CHR 0x0A]
               @ ''2'' @ [CHR 0x09] @ ''u2'' @ [CHR 0x09] @ ''t2'' @ [CHR 0x0A],
            doc_lengths_txt = Some (''2'' @ [CHR 0x0A] @ ''0'' @ [CHR 0x0A] @ ''1'' @ [CHR 0x0A])\<rparr>"
  have a: "add_documents in_order_docs new_builder = Inr ?b" by code_simp
  have s: "sorted_wrt (<) (map fst in_order_docs)" by code_simp
  have f: "save_index ?b = Inr ?f" by code_simp
  have c: "map_sum id index_bin (build_and_save in_order_docs) = Inr [2, 0, 2, 2, 1]" by code_simp
  from saved_postings_ascending [OF a s f] a s c show ?thesis by (intro conjI)
qed


text \<open>
  C2 as stated fails: \<^verbatim>\<open>save_index\<close> writes the lists as they are, and nothing sorts
  them. After \<^verbatim>\<open>add_document\<close> for document 1 and then for document 0, the record
  saved for their common term lists document 1 before document 0.
\<close>

theorem saved_postings_out_of_order_counterexample:
  "map_sum id index_bin (build_and_save out_of_order_docs) = Inr [2, 1, 1, 0, 1]
   \<and> map_sum id vocabulary_txt (build_and_save out_of_order_docs) = Inr (''0 vault 2'' @ [CHR 0x0A])"
  by code_simp

lemma build_lines_short_line:
  "length line < 50 \<Longrightarrow> build_lines (line # lines) b = build_lines lines b"
  by simp

lemma build_lines_missing_doc_id:
  "extract_json_field line ''doc_id'' 0 = [] \<Longrightarrow> build_lines (line # lines) b = build_lines lines b"
  by simp

lemma build_lines_short_text:
  assumes "stoi (extract_json_field line ''doc_id'' 0) = Inr doc_id"
    and "length (extract_json_field line ''text'' 0) < 50"
  shows "build_lines (line # lines) b = build_lines lines b"
  using assms by (simp add: Let_def)

lemma extract_json_field_absent:
  "find_from json ([CHR 0x22] @ field_name @ [CHR 0x22, CHR '':'']) 0 = None
   \<Longrightarrow> extract_json_field json field_name 0 = []"
  by (simp add: extract_json_field_def)

text \<open>
  C9. A line shorter than 50 bytes, a record without \<open>doc_id\<close> and a record whose text
  is shorter than 50 bytes are skipped. A record whose \<open>doc_id\<close> is not a number is
  not: \<^verbatim>\<open>std::stoi\<close> throws, no handler catches it, and the build ends there; the
  record after it is never read.
\<close>

theorem build_aborts_on_non_numeric_doc_id:
  "length (json_record ''abc'' ''u1'' ''Nuka'' long_text) \<ge> 50
   \<and> extract_json_field (json_record ''abc'' ''u1'' ''Nuka'' long_text) ''doc_id'' 0 = ''abc''
   \<and> stoi ''abc'' = Inl Stoi_Invalid_Argument
   \<and> build_from_jsonl [json_record ''abc'' ''u1'' ''Nuka'' long_text, json_record ''0'' ''u0'' ''Vault'' long_text]
       = Inl Stoi_Invalid_Argument"
  by code_simp


section \<open>Properties of saving and loading\<close>

subsection \<open>The stemmer introduces no white space\<close>

lemma no_space_append [simp]: "no_space (u @ v) \<longleftrightarrow> no_space u \<and> no_space v"
  by (simp add: no_space_def)

lemma no_space_take: "no_space w \<Longrightarrow> no_space (take n w)"
  by (auto simp: no_space_def list_all_iff dest: in_set_takeD)

lemma no_space_drop: "no_space w \<Longrightarrow> no_space (drop n w)"
  by (auto simp: no_space_def list_all_iff dest: in_set_dropD)

lemma no_space_update: "no_space w \<Longrightarrow> \<not> is_space c \<Longrightarrow> no_space (w[n := c])"
  by (auto simp: no_space_def list_all_iff dest: set_update_subset_insert [THEN subsetD])

lemma ends_word: "ends suffix s = Some (b, s') \<Longrightarrow> st_word s' = st_word s"
  by (auto simp: ends_def Let_def split: Option.bind_splits if_splits)

lemma set_to_word:
  "set_to str s = Some s' \<Longrightarrow> no_space (st_word s) \<Longrightarrow> no_space str \<Longrightarrow> no_space (st_word s')"
  by (auto simp: set_to_def replace_def no_space_take no_space_drop split: Option.bind_splits if_splits)

lemma stem_r_word:
  "stem_r str s = Some s' \<Longrightarrow> no_space (st_word s) \<Longrightarrow> no_space str \<Longrightarrow> no_space (st_word s')"
  by (auto simp: stem_r_def split: Option.bind_splits if_splits dest: set_to_word)

lemma replace_first_word:
  "replace_first rules s = Some s' \<Longrightarrow> no_space (st_word s) \<Longrightarrow> list_all (\<lambda>(a, b). no_space b) rules
   \<Longrightarrow> no_space (st_word s')"
proof (induction rules arbitrary: s)
  case Nil
  then show ?case by simp
next
  case (Cons rule rules)
  obtain suffix str where r: "rule = (suffix, str)" by (cases rule)
  from Cons.prems(1) obtain b s1 where e: "ends suffix s = Some (b, s1)"
    and c: "(if b then stem_r str s1 else replace_first rules s1) = Some s'"
    by (auto simp: r split: Option.bind_splits)
  have w: "no_space (st_word s1)" using ends_word [OF e] Cons.prems(2) by simp
  show ?case
  proof (cases b)
    case True
    with c have "stem_r str s1 = Some s'" by simp
    from stem_r_word [OF this w] Cons.prems(3) show ?thesis by (simp add: r)
  next
    case False
    with c have "replace_first rules s1 = Some s'" by simp
    from Cons.IH [OF this w] Cons.prems(3) show ?thesis by simp
  qed
qed

lemma ends_first_word: "ends_first suffixes s = Some (b, s') \<Longrightarrow> st_word s' = st_word s"
proof (induction suffixes arbitrary: s)
  case Nil
  then show ?case by simp
next
  case (Cons suffix suffixes)
  from Cons.prems obtain b1 s1 where e: "ends suffix s = Some (b1, s1)"
    and c: "(if b1 then Some (True, s1) else ends_first suffixes s1) = Some (b, s')"
    by (auto split: Option.bind_splits)
  show ?case
  proof (cases b1)
    case True
    with c ends_word [OF e] show ?thesis by simp
  next
    case False
    with c have "ends_first suffixes s1 = Some (b, s')" by simp
    from Cons.IH [OF this] ends_word [OF e] show ?thesis by simp
  qed
qed

lemma literal_no_space:
  "no_space ''i''" "no_space ''ate''" "no_space ''ble''" "no_space ''ize''" "no_space ''e''"
  by (simp_all add: no_space_def is_space_def)


lemma set_to_imp:
  "set_to str s = Some s' \<Longrightarrow> no_space str \<longrightarrow> no_space (st_word s) \<longrightarrow> no_space (st_word s')"
  using set_to_word by blast

lemma replace_first_imp:
  "replace_first rules s = Some s' \<Longrightarrow>
   list_all (\<lambda>(a, b). no_space b) rules \<longrightarrow> no_space (st_word s) \<longrightarrow> no_space (st_word s')"
  using replace_first_word by blast

lemma step1a_word:
  "step1a s = Some s' \<Longrightarrow> no_space (st_word s) \<Longrightarrow> no_space (st_word s')"
  by (auto simp: step1a_def literal_no_space split: Option.bind_splits if_splits
           dest!: ends_word set_to_imp)

lemma step1b_tail_imp:
  "step1b_tail s = Some s' \<Longrightarrow> no_space (st_word s) \<longrightarrow> no_space (st_word s')"
  by (auto simp: step1b_tail_def Let_def literal_no_space split: Option.bind_splits if_splits
           dest!: ends_word set_to_imp)

lemma step1b_word:
  "step1b s = Some s' \<Longrightarrow> no_space (st_word s) \<Longrightarrow> no_space (st_word s')"
  by (auto simp: step1b_def split: Option.bind_splits if_splits
           dest!: ends_word step1b_tail_imp)

lemma step1c_word:
  "step1c s = Some s' \<Longrightarrow> no_space (st_word s) \<Longrightarrow> no_space (st_word s')"
  by (auto simp: step1c_def is_space_def split: Option.bind_splits if_splits
           dest!: ends_word intro!: no_space_update)

lemma step2_word:
  "step2 s = Some s' \<Longrightarrow> no_space (st_word s) \<Longrightarrow> no_space (st_word s')"
  by (auto simp: step2_def no_space_def [of "_ # _"] no_space_def [of "[]"] is_space_def
           simp del: replace_first.simps
           split: Option.bind_splits if_splits dest!: replace_first_imp)

lemma step3_word:
  "step3 s = Some s' \<Longrightarrow> no_space (st_word s) \<Longrightarrow> no_space (st_word s')"
  by (auto simp: step3_def no_space_def [of "_ # _"] no_space_def [of "[]"] is_space_def
           simp del: replace_first.simps
           split: Option.bind_splits if_splits dest!: replace_first_imp)

lemma step4_o_word: "step4_o s = Some (b, s') \<Longrightarrow> st_word s' = st_word s"
  by (auto simp: step4_o_def simp del: ends_first.simps split: Option.bind_splits if_splits
           dest!: ends_word ends_first_word)

lemma step4_word:
  "step4 s = Some s' \<Longrightarrow> no_space (st_word s) \<Longrightarrow> no_space (st_word s')"
  by (auto simp: step4_def simp del: ends_first.simps split: Option.bind_splits if_splits
           dest!: ends_first_word step4_o_word)

lemma step5_word:
  "step5 s = Some s' \<Longrightarrow> no_space (st_word s) \<Longrightarrow> no_space (st_word s')"
  by (auto simp: step5_def Let_def split: Option.bind_splits if_splits)

lemma stem_no_space:
  assumes "stem w = Some stemmed" "no_space w"
  shows "no_space stemmed"
proof (cases "int (length w) - 1 \<le> 1")
  case True
  with assms show ?thesis by (simp add: stem_def Let_def)
next
  case False
  let ?s = "\<lparr>st_word = w, st_k = int (length w) - 1, st_j = 0\<rparr>"
  from assms(1) False obtain s1 s2 s3 s4 s5 s6 where
    s: "step1ab ?s = Some s1" "step1c s1 = Some s2" "step2 s2 = Some s3"
       "step3 s3 = Some s4" "step4 s4 = Some s5" "step5 s5 = Some s6"
    and r: "substr (st_word s6) 0 (st_k s6 + 1) = Some stemmed"
    by (auto simp: stem_def Let_def split: Option.bind_splits)
  from s(1) obtain s0 where s0: "step1a ?s = Some s0" "step1b s0 = Some s1"
    by (auto simp: step1ab_def split: Option.bind_splits)
  have "no_space (st_word ?s)" using assms(2) by simp
  from step1a_word [OF s0(1) this] have "no_space (st_word s0)" .
  from step1b_word [OF s0(2) this] have "no_space (st_word s1)" .
  from step1c_word [OF s(2) this] have "no_space (st_word s2)" .
  from step2_word [OF s(3) this] have "no_space (st_word s3)" .
  from step3_word [OF s(4) this] have "no_space (st_word s4)" .
  from step4_word [OF s(5) this] have "no_space (st_word s5)" .
  from step5_word [OF s(6) this] have "no_space (st_word s6)" .
  with r show ?thesis
    by (auto simp: substr_def no_space_take split: if_splits)
qed


subsection \<open>Decimal numbers and lines\<close>

lemma of_char_digit_char: "d < 10 \<Longrightarrow> (of_char (digit_char d) :: nat) = 48 + d"
  by (simp add: digit_char_def of_char_of)

lemma digit_char_props:
  assumes "d < 10"
  shows "is_digit (digit_char d)" "digit_value (digit_char d) = int d"
    "\<not> is_space (digit_char d)" "digit_char d \<noteq> CHR ''-''" "digit_char d \<noteq> CHR ''+''"
proof -
  note e = of_char_digit_char [OF assms]
  show "is_digit (digit_char d)" using assms by (simp add: is_digit_def e)
  show "digit_value (digit_char d) = int d" by (simp add: digit_value_def e)
  show "\<not> is_space (digit_char d)" using assms by (simp add: is_space_def e)
  have "(of_char (digit_char d) :: nat) \<noteq> of_char (CHR ''-'')" using assms by (simp add: e)
  then show "digit_char d \<noteq> CHR ''-''" by auto
  have "(of_char (digit_char d) :: nat) \<noteq> of_char (CHR ''+'')" using assms by (simp add: e)
  then show "digit_char d \<noteq> CHR ''+''" by auto
qed

lemma show_nat_digits: "show_nat n \<noteq> [] \<and> list_all is_digit (show_nat n)"
proof (induction n rule: show_nat.induct)
  case (1 n)
  show ?case
  proof (cases "n < 10")
    case True
    then show ?thesis by (subst (1 2) show_nat.simps) (simp add: digit_char_props)
  next
    case False
    have "n mod 10 < 10" by simp
    with False 1 show ?thesis by (subst (1 2) show_nat.simps) (simp add: digit_char_props)
  qed
qed

lemma show_nat_value: "foldl (\<lambda>acc c. 10 * acc + digit_value c) 0 (show_nat n) = int n"
proof (induction n rule: show_nat.induct)
  case (1 n)
  show ?case
  proof (cases "n < 10")
    case True
    then show ?thesis by (subst show_nat.simps) (simp add: digit_char_props)
  next
    case False
    have m: "n mod 10 < 10" by simp
    have "int n = 10 * int (n div 10) + int (n mod 10)"
      by (metis mult_div_mod_eq of_nat_add of_nat_mult of_nat_numeral)
    with False 1 show ?thesis
      by (subst show_nat.simps) (simp add: digit_char_props(2) [OF m])
  qed
qed

lemma show_nat_hd: "is_digit (hd (show_nat n))"
  using show_nat_digits [of n] by (cases "show_nat n") simp_all

lemma digit_not_space: "is_digit c \<Longrightarrow> \<not> is_space c"
  by (auto simp: is_digit_def is_space_def)

lemma digit_not_sign: "is_digit c \<Longrightarrow> c \<noteq> CHR ''-'' \<and> c \<noteq> CHR ''+''"
  by (auto simp: is_digit_def)

lemma takeWhile_digits:
  assumes "list_all is_digit ds" "rest = [] \<or> \<not> is_digit (hd rest)"
  shows "takeWhile is_digit (ds @ rest) = ds" "dropWhile is_digit (ds @ rest) = rest"
proof -
  have t: "takeWhile is_digit rest = []" "dropWhile is_digit rest = rest"
    using assms(2) by (cases rest; simp)+
  from assms(1) have a: "\<forall>x\<in>set ds. is_digit x" by (simp add: list_all_iff)
  show "takeWhile is_digit (ds @ rest) = ds"
    using a t by (simp add: takeWhile_append2)
  show "dropWhile is_digit (ds @ rest) = rest"
    using a t by (simp add: dropWhile_append2)
qed

lemma extract_int_digits:
  assumes "ds \<noteq> []" "list_all is_digit ds" "rest = [] \<or> \<not> is_digit (hd rest)"
    and "foldl (\<lambda>acc c. 10 * acc + digit_value c) 0 ds = v" "v \<le> 2147483647" "0 \<le> v"
  shows "extract_int (ds @ rest) = Int_Ok v rest"
proof -
  obtain d ds' where ds: "ds = d # ds'" using assms(1) by (cases ds) auto
  with assms(2) have d: "is_digit d" by simp
  then have "\<not> is_space d" "d \<noteq> CHR ''-''" "d \<noteq> CHR ''+''"
    using digit_not_space digit_not_sign by auto
  then have 1: "dropWhile is_space (ds @ rest) = ds @ rest" "hd (ds @ rest) \<noteq> CHR ''-''"
    "hd (ds @ rest) \<noteq> CHR ''+''" "ds @ rest \<noteq> []"
    by (simp_all add: ds)
  note 2 = takeWhile_digits [OF assms(2,3)]
  show ?thesis
    unfolding extract_int_def Let_def 1 using 1(2,3,4) assms(1,4,5,6)
    by (simp add: 2)
qed

lemma extract_int_show_nat:
  assumes "int n \<le> 2147483647" "rest = [] \<or> \<not> is_digit (hd rest)"
  shows "extract_int (show_nat n @ rest) = Int_Ok (int n) rest"
  using extract_int_digits [OF _ _ assms(2) show_nat_value [of n] assms(1)] show_nat_digits [of n]
  by simp

lemma extract_int_show_int:
  assumes "- 2147483648 \<le> i" "i \<le> 2147483647" "rest = [] \<or> \<not> is_digit (hd rest)"
  shows "extract_int (show_int i @ rest) = Int_Ok i rest"
proof (cases "i < 0")
  case False
  then have "show_int i = show_nat (nat i)" "int (nat i) = i" by (simp_all add: show_int_def)
  with extract_int_show_nat [of "nat i" rest] assms show ?thesis by simp
next
  case True
  define ds where "ds = show_nat (nat (- i))"
  have s: "show_int i = CHR ''-'' # ds" using True by (simp add: show_int_def ds_def)
  have dg: "ds \<noteq> []" "list_all is_digit ds" using show_nat_digits by (simp_all add: ds_def)
  have v: "foldl (\<lambda>acc c. 10 * acc + digit_value c) 0 ds = - i"
    using True show_nat_value [of "nat (- i)"] by (simp add: ds_def)
  have sp: "\<not> is_space (CHR ''-'')" by (simp add: is_space_def)
  note t = takeWhile_digits [OF dg(2) assms(3)]
  show ?thesis
    unfolding extract_int_def Let_def s using sp dg(1) v True assms(1)
    by (simp add: t)
qed

lemma get_lines_line:
  "CHR 0x0A \<notin> set l \<Longrightarrow> get_lines (l @ CHR 0x0A # rest) line = (line @ l) # get_lines rest []"
  by (induction l arbitrary: line) auto

lemma get_lines_concat:
  "\<forall>l\<in>set ls. CHR 0x0A \<notin> set l \<Longrightarrow> get_lines (concat (map (\<lambda>l. l @ [CHR 0x0A]) ls)) [] = ls"
proof (induction ls)
  case Nil
  then show ?case by simp
next
  case (Cons l ls)
  then have "CHR 0x0A \<notin> set l" by simp
  from get_lines_line [OF this, of _ "[]"] Cons show ?case by simp
qed


subsection \<open>Reading back what was written\<close>

lemma space_chars: "is_space (CHR '' '')" "is_space (CHR 0x0A)" "is_space (CHR 0x09)"
  by (simp_all add: is_space_def)

lemma not_digit_chars: "\<not> is_digit (CHR '' '')" "\<not> is_digit (CHR 0x0A)" "\<not> is_digit (CHR 0x09)"
  by (simp_all add: is_digit_def)

lemma no_space_no_newline: "no_space w \<Longrightarrow> CHR 0x0A \<notin> set w"
  using space_chars(2) by (auto simp: no_space_def list_all_iff)

lemma digits_no_newline: "list_all is_digit ds \<Longrightarrow> CHR 0x0A \<notin> set ds"
  using not_digit_chars(2) by (auto simp: list_all_iff)

lemma vocabulary_term_line:
  assumes "term \<noteq> []" "no_space term" "int term_id \<le> 2147483647"
  shows "vocabulary_term (show_nat term_id @ CHR '' '' # term @ CHR '' '' # show_nat n) = term"
proof -
  let ?rest = "CHR '' '' # term @ CHR '' '' # show_nat n"
  have e: "extract_int (show_nat term_id @ ?rest) = Int_Ok (int term_id) ?rest"
    using assms(3) not_digit_chars(1) by (intro extract_int_show_nat) simp_all
  from assms(1,2) have h: "\<not> is_space (hd term)"
    by (cases "term") (simp_all add: no_space_def)
  have d: "dropWhile is_space ?rest = term @ CHR '' '' # show_nat n"
    using assms(1) h space_chars(1) by (cases "term") simp_all
  have a: "\<forall>c\<in>set term. \<not> is_space c" using assms(2) by (simp add: no_space_def list_all_iff)
  have t: "takeWhile (\<lambda>c. \<not> is_space c) (term @ CHR '' '' # show_nat n) = term"
    using a space_chars(1) by (simp add: takeWhile_append2)
  show ?thesis
    unfolding vocabulary_term_def e int_extraction.case d t ..
qed

lemma read_postings_cells:
  "read_postings (length posting_list)
     (concat (map (\<lambda>p. [tp_doc_id p, tp_tf p]) posting_list) @ rest)
   = Inr (map to_search posting_list, rest)"
  by (induction posting_list) (simp_all add: to_search_def)

lemma read_posting_list_cells:
  "read_posting_list (posting_cells posting_list @ rest) = Inr (map to_search posting_list, rest)"
  by (simp add: read_posting_list_def posting_cells_def read_postings_cells)

lemma load_terms_saved:
  assumes "save_terms entries term_id = Inr (vocab, cells)"
    and "list_all (\<lambda>(term, posting_list). term \<noteq> [] \<and> no_space term) entries"
  shows "load_terms (get_lines vocab []) cells index
         = Inr (fold (\<lambda>(term, posting_list). hm_insert term (map to_search posting_list)) entries index)"
  using assms
proof (induction entries term_id arbitrary: vocab cells index rule: save_terms.induct)
  case (1 term_id)
  then show ?case by simp
next
  case (2 "term" posting_list entries term_id)
  from "2.prems"(1) have small: "\<not> int term_id \<ge> 2147483647"
    by (auto split: if_splits)
  with "2.prems"(1) obtain vocab' cells' where
    r: "save_terms entries (term_id + 1) = Inr (vocab', cells')"
    and v: "vocab = (show_nat term_id @ CHR '' '' # term @ CHR '' '' # show_nat (length posting_list)) @ CHR 0x0A # vocab'"
    and c: "cells = posting_cells posting_list @ cells'"
    by (auto split: sum.splits)
  from "2.prems"(2) have t: "term \<noteq> []" "no_space term" by simp_all
  let ?line = "show_nat term_id @ CHR '' '' # term @ CHR '' '' # show_nat (length posting_list)"
  have nl: "CHR 0x0A \<notin> set ?line"
    using no_space_no_newline [OF t(2)] digits_no_newline show_nat_digits by auto
  have g: "get_lines vocab [] = ?line # get_lines vocab' []"
    unfolding v using get_lines_line [OF nl, of vocab' "[]"] by simp
  have vt: "vocabulary_term ?line = term"
    using t small by (intro vocabulary_term_line) simp_all
  have rest: "list_all (\<lambda>(term, posting_list). term \<noteq> [] \<and> no_space term) entries"
    using "2.prems"(2) by simp
  from "2.IH" [OF small r rest]
  show ?case
    by (simp add: g c read_posting_list_cells vt)
qed

lemma hm_insert_new: "k \<notin> fst ` set m \<Longrightarrow> hm_insert k v m = m @ [(k, v)]"
  by (induction k v m rule: hm_insert.induct) auto

lemma fold_hm_insert_distinct:
  assumes "distinct (map fst entries)" "fst ` set entries \<inter> fst ` set index = {}"
  shows "fold (\<lambda>(term, posting_list). hm_insert term (f posting_list)) entries index
         = index @ map (\<lambda>(term, posting_list). (term, f posting_list)) entries"
  using assms
proof (induction entries arbitrary: index)
  case Nil
  then show ?case by simp
next
  case (Cons a entries)
  obtain t pl where a: "a = (t, pl)" by (cases a)
  from Cons.prems(2) have "t \<notin> fst ` set index" by (auto simp: a)
  then have h: "hm_insert t (f pl) index = index @ [(t, f pl)]" by (rule hm_insert_new)
  have 1: "distinct (map fst entries)" using Cons.prems(1) by simp
  have 2: "fst ` set entries \<inter> fst ` set (index @ [(t, f pl)]) = {}"
    using Cons.prems by (auto simp: a)
  from Cons.IH [OF 1 2] show ?case by (simp add: a h)
qed

lemma hm_find_map:
  "hm_find (map (\<lambda>(term, posting_list). (term, f posting_list)) entries) term
   = map_option f (hm_find entries term)"
  by (induction entries) (auto simp: hm_find_def)

lemma document_fields_line:
  assumes "CHR 0x09 \<notin> set url"
  shows "document_fields (CHR 0x09 # url @ CHR 0x09 # title) = (url, title)"
proof -
  have a1: "after_tab (CHR 0x09 # url @ CHR 0x09 # title) = Some (url @ CHR 0x09 # title)"
    by (simp add: after_tab_def)
  have "dropWhile (\<lambda>c. c \<noteq> CHR 0x09) (url @ CHR 0x09 # title) = CHR 0x09 # title"
    using assms by (induction url) auto
  then have a2: "after_tab (url @ CHR 0x09 # title) = Some title"
    by (simp add: after_tab_def)
  have u: "until_tab (url @ CHR 0x09 # title) = url"
    unfolding until_tab_def using assms by (induction url) auto
  show ?thesis
    by (simp add: document_fields_def a1 a2 u)
qed

lemma grow_engine_one:
  assumes "length (doc_urls e) = i"
  shows "grow_engine e i = e\<lparr>doc_urls := doc_urls e @ [[]],
                               doc_titles := doc_titles e @ [[]],
                               doc_lengths := doc_lengths e @ [0]\<rparr>"
  using assms
  by (subst grow_engine.simps, subst grow_engine.simps) simp

lemma load_document_line:
  assumes "length (doc_urls e) = i" "length (doc_titles e) = i" "int i \<le> 2147483647"
    and "CHR 0x09 \<notin> set url"
  shows "load_document e (show_nat i @ CHR 0x09 # url @ CHR 0x09 # title)
         = Inr (e\<lparr>doc_urls := doc_urls e @ [url],
                   doc_titles := doc_titles e @ [title],
                   doc_lengths := doc_lengths e @ [0]\<rparr>)"
proof -
  let ?rest = "CHR 0x09 # url @ CHR 0x09 # title"
  have x: "extract_int (show_nat i @ ?rest) = Int_Ok (int i) ?rest"
    using assms(3) not_digit_chars(3) by (intro extract_int_show_nat) simp_all
  show ?thesis
    unfolding load_document_def x
    using assms(1,2)
    by (simp add: document_fields_line [OF assms(4)] grow_engine_one [OF assms(1)] list_update_append)
qed

lemma load_documents_saved:
  assumes "save_documents urls titles i = Inr saved"
    and "length (doc_urls e) = i" "length (doc_titles e) = i"
    and "int (length urls) \<le> 2147483648"
    and "list_all (\<lambda>url. CHR 0x09 \<notin> set url \<and> CHR 0x0A \<notin> set url) urls"
    and "list_all (\<lambda>title. CHR 0x0A \<notin> set title) titles"
  shows "load_documents (get_lines saved []) e
         = Inr (e\<lparr>doc_urls := doc_urls e @ drop i urls,
                   doc_titles := doc_titles e @ take (length urls - i) (drop i titles),
                   doc_lengths := doc_lengths e @ replicate (length urls - i) 0\<rparr>)"
  using assms
proof (induction urls titles i arbitrary: saved e rule: save_documents.induct)
  case (1 urls titles i)
  show ?case
  proof (cases "i < length urls")
    case False
    with "1.prems"(1) have "saved = []" by (subst (asm) save_documents.simps) simp
    with False show ?thesis by simp
  next
    case True
    with "1.prems"(1) have it: "i < length titles"
      by (subst (asm) save_documents.simps) (auto split: if_splits)
    with True "1.prems"(1) obtain rest where
      r: "save_documents urls titles (i + 1) = Inr rest"
      and t: "saved = (show_nat i @ CHR 0x09 # urls ! i @ CHR 0x09 # titles ! i) @ CHR 0x0A # rest"
      by (subst (asm) save_documents.simps) (auto split: sum.splits)
    let ?line = "show_nat i @ CHR 0x09 # urls ! i @ CHR 0x09 # titles ! i"
    from "1.prems"(5) True have u: "CHR 0x09 \<notin> set (urls ! i)" "CHR 0x0A \<notin> set (urls ! i)"
      by (simp_all add: list_all_length)
    from "1.prems"(6) it have ti: "CHR 0x0A \<notin> set (titles ! i)"
      by (simp add: list_all_length)
    have nl: "CHR 0x0A \<notin> set ?line"
      using u(2) ti digits_no_newline show_nat_digits by auto
    have g: "get_lines saved [] = ?line # get_lines rest []"
      unfolding t using get_lines_line [OF nl, of rest "[]"] by simp
    have small: "int i \<le> 2147483647" using True "1.prems"(4) by simp
    define e1 where "e1 = e\<lparr>doc_urls := doc_urls e @ [urls ! i],
                   doc_titles := doc_titles e @ [titles ! i],
                   doc_lengths := doc_lengths e @ [0]\<rparr>"
    have ld: "load_document e ?line = Inr e1"
      unfolding e1_def using "1.prems"(2,3) small u(1) by (rule load_document_line)
    have l1: "length (doc_urls e1) = i + 1" "length (doc_titles e1) = i + 1"
      using "1.prems"(2,3) by (simp_all add: e1_def)
    from "1.IH" [OF True it r l1 "1.prems"(4,5,6)]
    have ih: "load_documents (get_lines rest []) e1
         = Inr (e1\<lparr>doc_urls := doc_urls e1 @ drop (i + 1) urls,
                   doc_titles := doc_titles e1 @ take (length urls - (i + 1)) (drop (i + 1) titles),
                   doc_lengths := doc_lengths e1 @ replicate (length urls - (i + 1)) 0\<rparr>)" .
    have du: "drop i urls = urls ! i # drop (i + 1) urls"
      using True by (simp add: Cons_nth_drop_Suc)
    have dt: "take (length urls - i) (drop i titles)
              = titles ! i # take (length urls - (i + 1)) (drop (i + 1) titles)"
    proof -
      have "drop i titles = titles ! i # drop (i + 1) titles"
        using it by (simp add: Cons_nth_drop_Suc)
      moreover have "length urls - i = Suc (length urls - (i + 1))" using True by simp
      ultimately show ?thesis by simp
    qed
    have rp: "replicate (length urls - i) (0::int) = 0 # replicate (length urls - (i + 1)) 0"
    proof -
      have "length urls - i = Suc (length urls - (i + 1))" using True by simp
      then show ?thesis by simp
    qed
    show ?thesis
      unfolding g using ld ih by (simp add: e1_def du dt rp)
  qed
qed

lemma extract_int_skip_space:
  "list_all is_space ws \<Longrightarrow> extract_int (ws @ s) = extract_int s"
proof -
  assume "list_all is_space ws"
  then have "dropWhile is_space (ws @ s) = dropWhile is_space s"
    by (induction ws) simp_all
  then show ?thesis by (simp add: extract_int_def)
qed

lemma extract_int_only_space: "list_all is_space ws \<Longrightarrow> extract_int ws = Int_None"
proof -
  assume "list_all is_space ws"
  then have "dropWhile is_space ws = []" by (induction ws) simp_all
  then show ?thesis by (simp add: extract_int_def)
qed

lemma load_lengths_saved:
  assumes "list_all int32 ls" "length ls \<le> fuel" "length_idx + length ls \<le> length lengths"
    and "list_all is_space ws"
  shows "load_lengths fuel (ws @ save_lengths ls) length_idx lengths
         = take length_idx lengths @ ls @ drop (length_idx + length ls) lengths"
  using assms
proof (induction ls arbitrary: fuel ws length_idx lengths)
  case Nil
  show ?case
  proof (cases fuel)
    case 0
    then show ?thesis by simp
  next
    case (Suc f)
    then show ?thesis
      using extract_int_only_space [OF Nil.prems(4)] by (simp add: save_lengths_def)
  qed
next
  case (Cons l ls)
  from Cons.prems(2) obtain f where fuel: "fuel = Suc f" "length ls \<le> f"
    by (cases fuel) auto
  from Cons.prems(1) have l: "- 2147483648 \<le> l" "l \<le> 2147483647"
    by (simp_all add: int32_def)
  have s: "save_lengths (l # ls) = show_int l @ CHR 0x0A # save_lengths ls"
    by (simp add: save_lengths_def)
  have x: "extract_int (ws @ save_lengths (l # ls)) = Int_Ok l (CHR 0x0A # save_lengths ls)"
    unfolding extract_int_skip_space [OF Cons.prems(4)] s
    using l not_digit_chars(2) by (intro extract_int_show_int) simp_all
  have idx: "length_idx < length lengths" using Cons.prems(3) by simp
  then have pad: "(lengths @ replicate (Suc length_idx - length lengths) 0)[length_idx := l]
                  = lengths[length_idx := l]"
    by simp
  have 1: "list_all int32 ls" using Cons.prems(1) by simp
  have 3: "Suc length_idx + length ls \<le> length (lengths[length_idx := l])"
    using Cons.prems(3) by simp
  have 4: "list_all is_space [CHR 0x0A]" by (simp add: space_chars)
  from Cons.IH [OF 1 fuel(2) 3 4]
  have ih: "load_lengths f (CHR 0x0A # save_lengths ls) (Suc length_idx) (lengths[length_idx := l])
        = take (Suc length_idx) (lengths[length_idx := l]) @ ls
          @ drop (Suc length_idx + length ls) (lengths[length_idx := l])"
    by simp
  have t: "take (Suc length_idx) (lengths[length_idx := l]) = take length_idx lengths @ [l]"
    using idx by (simp add: take_Suc_conv_app_nth)
  have d: "drop (Suc length_idx + length ls) (lengths[length_idx := l])
           = drop (length_idx + length (l # ls)) lengths"
    by simp
  have step: "load_lengths (Suc f) (ws @ save_lengths (l # ls)) length_idx lengths
        = load_lengths f (CHR 0x0A # save_lengths ls) (Suc length_idx) (lengths[length_idx := l])"
    using x pad by simp
  show ?case
    unfolding fuel(1) step ih t d by simp
qed

lemma save_lengths_length: "length ls \<le> length (save_lengths ls)"
  by (induction ls) (simp_all add: save_lengths_def)

lemma load_lengths_round_trip:
  assumes "list_all int32 ls"
  shows "load_lengths (length (save_lengths ls)) (save_lengths ls) 0 (replicate (length ls) 0) = ls"
  using load_lengths_saved [OF assms save_lengths_length, of 0 "replicate (length ls) 0" "[]"]
  by simp

lemma load_saved:
  assumes "builder_wf b" "plain_fields (b_doc_urls b) (b_doc_titles b)" "save_index b = Inr files"
  shows "load_index files
         = Inr \<lparr>inverted_index = map (\<lambda>(term, posting_list). (term, map to_search posting_list))
                                    (b_inverted_index b),
                doc_urls = b_doc_urls b, doc_titles = b_doc_titles b,
                doc_lengths = b_doc_lengths b\<rparr>"
proof -
  from assms(3) obtain vocab cells docs where
    st: "save_terms (b_inverted_index b) 0 = Inr (vocab, cells)"
    and sd: "save_documents (b_doc_urls b) (b_doc_titles b) 0 = Inr docs"
    and f: "files = \<lparr>vocabulary_txt = vocab, index_bin = cells, documents_txt = docs,
                     doc_lengths_txt = Some (save_lengths (b_doc_lengths b))\<rparr>"
    by (auto simp: save_index_def split: sum.splits prod.splits)
  from assms(1) have wf: "distinct (map fst (b_inverted_index b))"
    "list_all (\<lambda>(term, posting_list). term \<noteq> [] \<and> no_space term) (b_inverted_index b)"
    "length (b_doc_titles b) = length (b_doc_urls b)"
    "length (b_doc_lengths b) = length (b_doc_urls b)"
    "int (length (b_doc_urls b)) \<le> 2147483648"
    "list_all int32 (b_doc_lengths b)"
    by (simp_all add: builder_wf_def)
  let ?index = "map (\<lambda>(term, posting_list). (term, map to_search posting_list)) (b_inverted_index b)"
  have lt: "load_terms (get_lines vocab []) cells [] = Inr ?index"
    using load_terms_saved [OF st wf(2), of "[]"]
      fold_hm_insert_distinct [OF wf(1), of "[]" "map to_search"]
    by simp
  let ?e0 = "new_engine\<lparr>inverted_index := ?index\<rparr>"
  have e0: "length (doc_urls ?e0) = 0" "length (doc_titles ?e0) = 0"
    by (simp_all add: new_engine_def)
  from assms(2) have pf: "list_all (\<lambda>url. CHR 0x09 \<notin> set url \<and> CHR 0x0A \<notin> set url) (b_doc_urls b)"
    "list_all (\<lambda>title. CHR 0x0A \<notin> set title) (b_doc_titles b)"
    by (simp_all add: plain_fields_def)
  have ld: "load_documents (get_lines docs []) ?e0
        = Inr \<lparr>inverted_index = ?index, doc_urls = b_doc_urls b, doc_titles = b_doc_titles b,
               doc_lengths = replicate (length (b_doc_urls b)) 0\<rparr>"
    using load_documents_saved [OF sd e0 wf(5) pf] wf(3)
    by (simp add: new_engine_def)
  have ll: "load_lengths (length (save_lengths (b_doc_lengths b))) (save_lengths (b_doc_lengths b)) 0
              (replicate (length (b_doc_urls b)) 0) = b_doc_lengths b"
    using load_lengths_round_trip [OF wf(6)] wf(4) by simp
  show ?thesis
    unfolding load_index_def f by (simp add: lt ld ll)
qed

lemma keep_char_not_space: "keep_char c \<Longrightarrow> \<not> is_space c"
proof -
  assume "keep_char c"
  then consider "is_alpha c" | "is_digit c" | "c = CHR 0x27"
    by (auto simp: keep_char_def is_alnum_def)
  then show ?thesis
    using alpha_not_space digit_not_space apostrophe_not_space by cases auto
qed

lemma to_lower_no_space:
  "list_all (\<lambda>c. is_alpha c \<or> c = CHR 0x27) w \<Longrightarrow> no_space (to_lower w)"
  by (auto simp: no_space_def to_lower_def list_all_iff
           dest!: to_lower_char_keep keep_char_not_space)

lemma push_token_no_space:
  "list_all no_space tokens \<Longrightarrow> list_all (\<lambda>c. is_alpha c \<or> c = CHR 0x27) current_token
   \<Longrightarrow> list_all no_space (push_token tokens current_token)"
  by (simp add: push_token_def Let_def to_lower_no_space)

lemma tokenize_loop_no_space:
  assumes "list_all no_space tokens" "list_all (\<lambda>c. is_alpha c \<or> c = CHR 0x27) current_token"
  shows "list_all no_space (fst (tokenize_loop s tokens current_token))
       \<and> list_all (\<lambda>c. is_alpha c \<or> c = CHR 0x27) (snd (tokenize_loop s tokens current_token))"
  using assms
proof (induction s arbitrary: tokens current_token)
  case Nil
  then show ?case by simp
next
  case (Cons c s)
  show ?case
  proof (cases "is_alpha c \<or> (c = CHR 0x27 \<and> current_token \<noteq> [])")
    case True
    then have "list_all (\<lambda>c. is_alpha c \<or> c = CHR 0x27) (current_token @ [c])"
      using Cons.prems(2) by auto
    from Cons.IH [OF Cons.prems(1) this] True show ?thesis by simp
  next
    case False
    show ?thesis
    proof (cases "current_token \<noteq> []")
      case True
      have "list_all (\<lambda>c. is_alpha c \<or> c = CHR 0x27) []" by simp
      from Cons.IH [OF push_token_no_space [OF Cons.prems] this] False True
      show ?thesis by simp
    next
      case False
      with Cons.IH [OF Cons.prems] \<open>\<not> (is_alpha c \<or> (c = CHR 0x27 \<and> current_token \<noteq> []))\<close>
      show ?thesis by simp
    qed
  qed
qed

lemma tokenize_no_space: "list_all no_space (tokenize s)"
proof -
  have "list_all no_space []" "list_all (\<lambda>c. is_alpha c \<or> c = CHR 0x27) []" by simp_all
  from tokenize_loop_no_space [OF this, of s] show ?thesis
    by (auto simp: tokenize_def push_token_no_space split: prod.splits)
qed

end
